theory Spec2Isabelle
  imports Main "HOL-Library.Multiset"
begin

section \<open>Data model\<close>

text \<open>
  The class \<open>_Node\<close> of \<open>PriorityQueue1.py\<close>: a key, its value and the priority key
  derived from the value.
\<close>

record ('k, 'v, 'p) Node =
  key :: 'k
  "value" :: 'v
  prio :: 'p

text \<open>
  The class \<open>pqdict\<close>: the list \<open>_heap\<close>, the dictionary \<open>_position\<close> and the two
  functions fixed by the constructor. The field \<open>keyfn\<close> is the property of that name
  (the stored function, or the identity when none was given), so that
  \<open>keygen(value) if keygen is not None else value\<close> is \<open>keyfn q value\<close>.
\<close>

record ('k, 'v, 'p) pqdict =
  heap :: "('k, 'v, 'p) Node list"
  position :: "'k \<rightharpoonup> nat"
  keyfn :: "'v \<Rightarrow> 'p"
  precedes :: "'p \<Rightarrow> 'p \<Rightarrow> bool"

text \<open>
  Every exception of the module is a value. The three \<open>KeyError\<close>s differ in what they
  carry: the message "... is already in the queue", the missing key itself (raised by the
  dictionary), and the message "pqdict is empty". A mutating method returns the queue it
  leaves behind in both outcomes, since a Python exception keeps what was already written.
\<close>

datatype 'k error =
  KeyError_already 'k
  | KeyError_missing 'k
  | KeyError_empty
  | IndexError

section \<open>The restoring algorithms\<close>

text \<open>
  Modelled from the spec: the exchange of two array slots that \<open>swim\<close> and \<open>sink\<close>
  perform, "updating both array and index on each swap". The methods \<open>_swim\<close>, \<open>_sink\<close>
  and \<open>_reheapify\<close> are called by the source file but their bodies are not part of it.
\<close>

definition swap :: "('k, 'v, 'p) pqdict \<Rightarrow> nat \<Rightarrow> nat \<Rightarrow> ('k, 'v, 'p) pqdict" where
  "swap q i j =
     q\<lparr>heap := (heap q)[i := heap q ! j, j := heap q ! i],
       position := (position q)(key (heap q ! j) \<mapsto> i, key (heap q ! i) \<mapsto> j)\<rparr>"

text \<open>
  Modelled from the spec: the array layout of the binary heap, "for every valid index
  \<open>i\<close> with children \<open>2i+1\<close>, \<open>2i+2\<close>"; the parent of a slot other than the root is
  the slot it is a child of.
\<close>

definition parent :: "nat \<Rightarrow> nat" where
  "parent pos = (pos - 1) div 2"

text \<open>
  Modelled from the spec: \<open>_swim\<close>, absent from the source file. "Repeatedly swap it with
  its parent while it precedes the parent, [...] stopping at the root or when the parent no
  longer yields." An index outside the array is left alone.
\<close>

function swim :: "('k, 'v, 'p) pqdict \<Rightarrow> nat \<Rightarrow> ('k, 'v, 'p) pqdict" where
  "swim q pos =
     (if pos = 0 \<or> length (heap q) \<le> pos then q
      else if precedes q (prio (heap q ! pos)) (prio (heap q ! parent pos))
        then swim (swap q pos (parent pos)) (parent pos)
        else q)"
  by pat_completeness auto
termination
  by (relation "measure (\<lambda>(q, pos). pos)") (auto simp: parent_def)

text \<open>
  Modelled from the spec: "the child that most precedes its sibling (the winning child
  under the comparator)". The right child wins when it exists and precedes the left one;
  on a tie, which the spec leaves open, the left child is taken.
\<close>

definition winning_child :: "('k, 'v, 'p) pqdict \<Rightarrow> nat \<Rightarrow> nat" where
  "winning_child q pos =
     (let child = 2 * pos + 1;
          other = child + 1
      in if other < length (heap q) \<and>
            precedes q (prio (heap q ! other)) (prio (heap q ! child))
         then other else child)"

text \<open>
  Modelled from the spec: \<open>_sink\<close>, absent from the source file. "Repeatedly compare
  against the [winning child] and swap with it while that child precedes the current
  entry, stopping at a leaf or when no child yields."
\<close>

function sink :: "('k, 'v, 'p) pqdict \<Rightarrow> nat \<Rightarrow> ('k, 'v, 'p) pqdict" where
  "sink q pos =
     (if length (heap q) \<le> 2 * pos + 1 then q
      else if precedes q (prio (heap q ! winning_child q pos)) (prio (heap q ! pos))
        then sink (swap q pos (winning_child q pos)) (winning_child q pos)
        else q)"
  by pat_completeness auto
termination
  by (relation "measure (\<lambda>(q, pos). length (heap q) - pos)")
    (auto simp: swap_def winning_child_def Let_def)

text \<open>
  Modelled from the spec: \<open>_reheapify\<close>, absent from the source file. "Attempt sink, then
  attempt swim", both at the position whose entry changed.
\<close>

definition reheapify :: "('k, 'v, 'p) pqdict \<Rightarrow> nat \<Rightarrow> ('k, 'v, 'p) pqdict" where
  "reheapify q pos = swim (sink q pos) pos"

section \<open>The methods of pqdict\<close>

text \<open>\<open>__contains__\<close>: membership in the index.\<close>

definition contains :: "('k, 'v, 'p) pqdict \<Rightarrow> 'k \<Rightarrow> bool" where
  "contains q k = (position q k \<noteq> None)"

text \<open>\<open>__len__\<close>.\<close>

definition len :: "('k, 'v, 'p) pqdict \<Rightarrow> nat" where
  "len q = length (heap q)"

text \<open>\<open>__getitem__\<close>: \<open>self._heap[self._position[key]].value\<close>.\<close>

definition getitem :: "('k, 'v, 'p) pqdict \<Rightarrow> 'k \<Rightarrow> 'k error + 'v" where
  "getitem q k =
     (case position q k of
        None \<Rightarrow> Inl (KeyError_missing k)
      | Some pos \<Rightarrow>
          if pos < length (heap q) then Inr (value (heap q ! pos)) else Inl IndexError)"

text \<open>
  \<open>__setitem__\<close>: the \<open>except KeyError\<close> branch appends a fresh node and lets it swim;
  the \<open>else\<close> branch overwrites value and priority in place and reheapifies.
\<close>

definition setitem ::
  "('k, 'v, 'p) pqdict \<Rightarrow> 'k \<Rightarrow> 'v \<Rightarrow> ('k error \<times> ('k, 'v, 'p) pqdict) + ('k, 'v, 'p) pqdict"
where
  "setitem q k v =
     (case position q k of
        None \<Rightarrow>
          let n = length (heap q);
              p = keyfn q v
          in Inr (swim (q\<lparr>heap := heap q @ [\<lparr>key = k, value = v, prio = p\<rparr>],
                          position := (position q)(k \<mapsto> n)\<rparr>) n)
      | Some pos \<Rightarrow>
          let p = keyfn q v in
          if pos < length (heap q)
          then Inr (reheapify
                 (q\<lparr>heap := (heap q)[pos := (heap q ! pos)\<lparr>value := v, prio := p\<rparr>]\<rparr>) pos)
          else Inl (IndexError, q))"

text \<open>
  \<open>__delitem__\<close>. The index entry is popped first; the last node of the array is popped
  and, unless it is the node to delete, written over it and reheapified. The identity test
  \<open>end is not node_to_delete\<close> is a comparison of positions: a node object sits in one
  slot of the array only. The method has no \<open>return\<close> statement: its result is Python's
  \<open>None\<close>, the \<open>None\<close> of the result below.
\<close>

definition delitem ::
  "('k, 'v, 'p) pqdict \<Rightarrow> 'k \<Rightarrow>
     ('k error \<times> ('k, 'v, 'p) pqdict) + (('k \<times> 'v) option \<times> ('k, 'v, 'p) pqdict)"
where
  "delitem q k =
     (case position q k of
        None \<Rightarrow> Inl (KeyError_missing k, q)
      | Some pos \<Rightarrow>
          let position' = (position q)(k := None) in
          if length (heap q) \<le> pos then Inl (IndexError, q\<lparr>position := position'\<rparr>)
          else
            let end_node = last (heap q);
                heap' = butlast (heap q)
            in if pos \<noteq> length (heap q) - 1
               then Inr (None, reheapify
                      (q\<lparr>heap := heap'[pos := end_node],
                         position := position'(key end_node \<mapsto> pos)\<rparr>) pos)
               else Inr (None, q\<lparr>heap := heap', position := position'\<rparr>))"

text \<open>\<open>topitem\<close>: key and value of the node at index 0.\<close>

definition topitem :: "('k, 'v, 'p) pqdict \<Rightarrow> 'k error + ('k \<times> 'v)" where
  "topitem q =
     (case heap q of
        [] \<Rightarrow> Inl KeyError_empty
      | node # _ \<Rightarrow> Inr (key node, value node))"

text \<open>\<open>additem\<close>.\<close>

definition additem ::
  "('k, 'v, 'p) pqdict \<Rightarrow> 'k \<Rightarrow> 'v \<Rightarrow> ('k error \<times> ('k, 'v, 'p) pqdict) + ('k, 'v, 'p) pqdict"
where
  "additem q k v =
     (if position q k \<noteq> None then Inl (KeyError_already k, q) else setitem q k v)"

text \<open>
  \<open>pushpopitem\<close>. The node is built before the membership test. In the displacing branch
  the statements run in the source's order: the tuple assignment, \<open>position[key] = 0\<close>,
  \<open>del position[node.key]\<close> (a \<open>KeyError\<close> when the old root's key is not in the index),
  \<open>self._sink(0)\<close>.
\<close>

definition pushpopitem ::
  "('k, 'v, 'p) pqdict \<Rightarrow> 'k \<Rightarrow> 'v \<Rightarrow>
     ('k error \<times> ('k, 'v, 'p) pqdict) + (('k \<times> 'v) \<times> ('k, 'v, 'p) pqdict)"
where
  "pushpopitem q k v =
     (let p = keyfn q v;
          node = \<lparr>key = k, value = v, prio = p\<rparr>
      in if contains q k then Inl (KeyError_already k, q)
         else if heap q \<noteq> [] \<and> precedes q (prio (heap q ! 0)) (prio node)
         then
           let old = heap q ! 0;
               q1 = q\<lparr>heap := (heap q)[0 := node], position := (position q)(k \<mapsto> 0)\<rparr>
           in (case position q1 (key old) of
                 None \<Rightarrow> Inl (KeyError_missing (key old), q1)
               | Some _ \<Rightarrow>
                   Inr ((key old, value old),
                        sink (q1\<lparr>position := (position q1)(key old := None)\<rparr>) 0))
         else Inr ((key node, value node), q))"

text \<open>\<open>updateitem\<close>.\<close>

definition updateitem ::
  "('k, 'v, 'p) pqdict \<Rightarrow> 'k \<Rightarrow> 'v \<Rightarrow> ('k error \<times> ('k, 'v, 'p) pqdict) + ('k, 'v, 'p) pqdict"
where
  "updateitem q k new_val =
     (if position q k = None then Inl (KeyError_missing k, q) else setitem q k new_val)"

text \<open>
  \<open>replace_key\<close>: the new key is tested first, then the old key is popped from the index,
  the new key is entered at the same position and the node's key field is overwritten.
\<close>

definition replace_key ::
  "('k, 'v, 'p) pqdict \<Rightarrow> 'k \<Rightarrow> 'k \<Rightarrow> ('k error \<times> ('k, 'v, 'p) pqdict) + ('k, 'v, 'p) pqdict"
where
  "replace_key q k new_key =
     (if contains q new_key then Inl (KeyError_already new_key, q)
      else case position q k of
        None \<Rightarrow> Inl (KeyError_missing k, q)
      | Some pos \<Rightarrow>
          let q1 = q\<lparr>position := ((position q)(k := None))(new_key \<mapsto> pos)\<rparr> in
          if pos < length (heap q)
          then Inr (q1\<lparr>heap := (heap q)[pos := (heap q ! pos)\<lparr>key := new_key\<rparr>]\<rparr>)
          else Inl (IndexError, q1))"

text \<open>The empty queue that the constructor builds for a given policy.\<close>

definition empty_pq :: "('v \<Rightarrow> 'p) \<Rightarrow> ('p \<Rightarrow> 'p \<Rightarrow> bool) \<Rightarrow> ('k, 'v, 'p) pqdict" where
  "empty_pq f prec = \<lparr>heap = [], position = Map.empty, keyfn = f, precedes = prec\<rparr>"

section \<open>Invariants\<close>

text \<open>
  Heap order as the spec states it: no existing child strictly precedes its parent.
\<close>

definition heap_order :: "('k, 'v, 'p) pqdict \<Rightarrow> bool" where
  "heap_order q =
     (\<forall>i \<in> {0..<length (heap q)}. \<forall>c \<in> {2 * i + 1, 2 * i + 2}.
        c < length (heap q) \<longrightarrow> \<not> precedes q (prio (heap q ! c)) (prio (heap q ! i)))"

text \<open>
  Index consistency as the spec states it: every key of the index points at a slot holding
  that key, the index has exactly the keys of the array, and no key occurs twice.
\<close>

definition index_consistent :: "('k, 'v, 'p) pqdict \<Rightarrow> bool" where
  "index_consistent q =
     ((\<forall>k \<in> dom (position q).
         the (position q k) < length (heap q) \<and> key (heap q ! the (position q k)) = k) \<and>
      dom (position q) = key ` set (heap q) \<and>
      distinct (map key (heap q)))"

text \<open>Every stored priority is the priority key of the stored value.\<close>

definition prio_ok :: "('k, 'v, 'p) pqdict \<Rightarrow> bool" where
  "prio_ok q = (\<forall>n \<in> set (heap q). prio n = keyfn q (value n))"

text \<open>
  The comparator is a strict weak order ("totally ordered by the configured precedes
  comparator, ties permitted"): irreflexive, transitive, and with a transitive tie relation.
\<close>

definition strict_weak_order :: "('p \<Rightarrow> 'p \<Rightarrow> bool) \<Rightarrow> bool" where
  "strict_weak_order prec =
     ((\<forall>a. \<not> prec a a) \<and>
      (\<forall>a b c. prec a b \<and> prec b c \<longrightarrow> prec a c) \<and>
      (\<forall>a b c. prec a c \<longrightarrow> prec a b \<or> prec b c))"

section \<open>Operations and auxiliary predicates\<close>

text \<open>
  The public mutating operations, and the queue each of them leaves behind, whether it
  returns or raises.
\<close>

datatype ('k, 'v) operation =
  SetItem 'k 'v
  | AddItem 'k 'v
  | UpdateItem 'k 'v
  | DelItem 'k
  | PushPopItem 'k 'v
  | ReplaceKey 'k 'k

fun run :: "('k, 'v, 'p) pqdict \<Rightarrow> ('k, 'v) operation \<Rightarrow> ('k, 'v, 'p) pqdict" where
  "run q (SetItem k v) = (case setitem q k v of Inl (e, q') \<Rightarrow> q' | Inr q' \<Rightarrow> q')"
| "run q (AddItem k v) = (case additem q k v of Inl (e, q') \<Rightarrow> q' | Inr q' \<Rightarrow> q')"
| "run q (UpdateItem k v) = (case updateitem q k v of Inl (e, q') \<Rightarrow> q' | Inr q' \<Rightarrow> q')"
| "run q (DelItem k) = (case delitem q k of Inl (e, q') \<Rightarrow> q' | Inr (r, q') \<Rightarrow> q')"
| "run q (PushPopItem k v) =
     (case pushpopitem q k v of Inl (e, q') \<Rightarrow> q' | Inr (r, q') \<Rightarrow> q')"
| "run q (ReplaceKey k k') = (case replace_key q k k' of Inl (e, q') \<Rightarrow> q' | Inr q' \<Rightarrow> q')"

text \<open>
  The caller's loop of the priority-order extraction: while the queue is not empty, read
  the top item with \<open>topitem\<close> and remove it by key with \<open>__delitem__\<close>; the result is
  the list of the items read, or the exception that stopped the loop.
\<close>

function drain :: "('k, 'v, 'p) pqdict \<Rightarrow> 'k error + ('k \<times> 'v) list" where
  "drain q =
     (if len q = 0 then Inr []
      else case topitem q of
        Inl e \<Rightarrow> Inl e
      | Inr (k, v) \<Rightarrow>
          (case delitem q k of
             Inl (e, q') \<Rightarrow> Inl e
           | Inr (r, q') \<Rightarrow>
               (case drain q' of
                  Inl e \<Rightarrow> Inl e
                | Inr items \<Rightarrow> Inr ((k, v) # items))))"
  by pat_completeness auto

text \<open>
  Heap order with one slot excepted: \<open>ordered_above\<close> leaves out the pair of \<open>pos\<close> and
  its parent (the state \<open>swim\<close> repairs), \<open>ordered_below\<close> the pairs of \<open>pos\<close> and its
  children (the state \<open>sink\<close> repairs), \<open>ordered_around\<close> both (the state \<open>reheapify\<close>
  repairs). In each, the parent of \<open>pos\<close> is not preceded by the children of \<open>pos\<close>.
\<close>

definition ordered_above :: "('k, 'v, 'p) pqdict \<Rightarrow> nat \<Rightarrow> bool" where
  "ordered_above q pos =
     ((\<forall>c<length (heap q). 0 < c \<and> c \<noteq> pos \<longrightarrow>
         \<not> precedes q (prio (heap q ! c)) (prio (heap q ! parent c))) \<and>
      (\<forall>c<length (heap q). 0 < pos \<and> 0 < c \<and> parent c = pos \<longrightarrow>
         \<not> precedes q (prio (heap q ! c)) (prio (heap q ! parent pos))))"

definition ordered_below :: "('k, 'v, 'p) pqdict \<Rightarrow> nat \<Rightarrow> bool" where
  "ordered_below q pos =
     ((\<forall>c<length (heap q). 0 < c \<and> parent c \<noteq> pos \<longrightarrow>
         \<not> precedes q (prio (heap q ! c)) (prio (heap q ! parent c))) \<and>
      (\<forall>c<length (heap q). 0 < pos \<and> 0 < c \<and> parent c = pos \<longrightarrow>
         \<not> precedes q (prio (heap q ! c)) (prio (heap q ! parent pos))))"

definition ordered_around :: "('k, 'v, 'p) pqdict \<Rightarrow> nat \<Rightarrow> bool" where
  "ordered_around q pos =
     ((\<forall>c<length (heap q). 0 < c \<and> c \<noteq> pos \<and> parent c \<noteq> pos \<longrightarrow>
         \<not> precedes q (prio (heap q ! c)) (prio (heap q ! parent c))) \<and>
      (\<forall>c<length (heap q). 0 < pos \<and> 0 < c \<and> parent c = pos \<longrightarrow>
         \<not> precedes q (prio (heap q ! c)) (prio (heap q ! parent pos))))"

text \<open>
  No two entries of the queue tie: of two different slots, one priority precedes the other.
\<close>

definition no_ties :: "('k, 'v, 'p) pqdict \<Rightarrow> bool" where
  "no_ties q =
     (\<forall>i<length (heap q). \<forall>j<length (heap q). i \<noteq> j \<longrightarrow>
        precedes q (prio (heap q ! i)) (prio (heap q ! j)) \<or>
        precedes q (prio (heap q ! j)) (prio (heap q ! i)))"

text \<open>
  The state in which \<open>__delitem__\<close> calls \<open>_reheapify\<close>: the index entry of \<open>k\<close> and
  the last node are popped, and the last node is written at \<open>pos\<close>.
\<close>

definition detach :: "('k, 'v, 'p) pqdict \<Rightarrow> 'k \<Rightarrow> nat \<Rightarrow> ('k, 'v, 'p) pqdict" where
  "detach q k pos =
     q\<lparr>heap := (butlast (heap q))[pos := last (heap q)],
       position := ((position q)(k := None))(key (last (heap q)) \<mapsto> pos)\<rparr>"

text \<open>
  The invariant of \<open>swim\<close> after an append to \<open>q\<close>, used to show that deleting the new
  key afterwards gives \<open>q\<close> back: the new node sits at \<open>pos\<close> of \<open>s\<close>, the slots before
  \<open>pos\<close> and its right neighbour are those of \<open>q\<close>, and detaching the new node and
  sinking from \<open>pos\<close> rebuilds \<open>q\<close>.
\<close>

definition restorable ::
  "('k, 'v, 'p) pqdict \<Rightarrow> 'k \<Rightarrow> ('k, 'v, 'p) pqdict \<Rightarrow> nat \<Rightarrow> bool" where
  "restorable q k s pos =
     (length (heap s) = length (heap q) + 1 \<and> pos \<le> length (heap q) \<and>
      index_consistent s \<and> position s k = Some pos \<and> precedes s = precedes q \<and>
      (\<forall>i<length (heap q). i < pos \<or> (i = pos + 1 \<and> 0 < pos) \<longrightarrow> heap s ! i = heap q ! i) \<and>
      (pos < length (heap q) \<longrightarrow>
         pos \<le> parent (length (heap q)) \<and>
         last (heap s) = heap q ! parent (length (heap q)) \<and>
         sink (detach s k pos) pos = q) \<and>
      (pos = length (heap q) \<longrightarrow>
         s\<lparr>heap := butlast (heap s), position := (position s)(k := None)\<rparr> = q) \<and>
      (0 < pos \<longrightarrow>
         \<not> precedes q (prio (heap q ! parent (length (heap q)))) (prio (heap q ! parent pos))))"

section \<open>Example queues\<close>

text \<open>
  The queues of the spec's example scenarios, with the default policy (priority = value,
  ascending): \<open>ex_abc\<close> after inserting a:5, b:2, c:8; \<open>ex_ac\<close> after removing b;
  \<open>ex_ec\<close> after \<open>pushpopitem\<close> of e:9 on \<open>ex_ac\<close>; \<open>ex_x\<close> holding x:1 only.
\<close>

definition ex_abc :: "(string, int, int) pqdict" where
  "ex_abc =
     \<lparr>heap = [\<lparr>key = ''b'', value = 2, prio = 2\<rparr>, \<lparr>key = ''a'', value = 5, prio = 5\<rparr>,
              \<lparr>key = ''c'', value = 8, prio = 8\<rparr>],
      position = [''b'' \<mapsto> 0, ''a'' \<mapsto> 1, ''c'' \<mapsto> 2],
      keyfn = (\<lambda>v. v), precedes = (<)\<rparr>"

definition ex_ac :: "(string, int, int) pqdict" where
  "ex_ac =
     \<lparr>heap = [\<lparr>key = ''a'', value = 5, prio = 5\<rparr>, \<lparr>key = ''c'', value = 8, prio = 8\<rparr>],
      position = [''a'' \<mapsto> 0, ''c'' \<mapsto> 1],
      keyfn = (\<lambda>v. v), precedes = (<)\<rparr>"

definition ex_x :: "(string, int, int) pqdict" where
  "ex_x =
     \<lparr>heap = [\<lparr>key = ''x'', value = 1, prio = 1\<rparr>], position = [''x'' \<mapsto> 0],
      keyfn = (\<lambda>v. v), precedes = (<)\<rparr>"

definition ex_ec :: "(string, int, int) pqdict" where
  "ex_ec =
     \<lparr>heap = [\<lparr>key = ''c'', value = 8, prio = 8\<rparr>, \<lparr>key = ''e'', value = 9, prio = 9\<rparr>],
      position = [''c'' \<mapsto> 0, ''e'' \<mapsto> 1],
      keyfn = (\<lambda>v. v), precedes = (<)\<rparr>"


text \<open>
  Queues with ties: \<open>ex_a\<close> holds a:5, \<open>ex_ab\<close> is \<open>ex_a\<close> after inserting b:5 and
  \<open>ex_b\<close> is \<open>ex_ab\<close> after removing its top; \<open>ex_ties\<close> holds a:1, b:1, c:1,
  \<open>ex_ties_d\<close> is \<open>ex_ties\<close> after inserting d:0 and \<open>ex_ties_back\<close> is \<open>ex_ties_d\<close>
  after removing d. Queues without ties: \<open>ex_rst\<close> holds r:1, s:5, t:3; \<open>ex_rust\<close> is
  \<open>ex_rst\<close> after inserting u:4, \<open>ex_tus\<close> is \<open>ex_rust\<close> after removing its top, and
  \<open>ex_tsu\<close> is \<open>ex_rst\<close> after \<open>pushpopitem\<close> of u:4. With u:5 instead, which ties
  with s:5 and not with the top, \<open>ex_rstu5\<close> is \<open>ex_rst\<close> after the insertion and
  \<open>ex_tsu5\<close> the queue that both ways leave.
\<close>

definition ex_a :: "(string, int, int) pqdict" where
  "ex_a =
     \<lparr>heap = [\<lparr>key = ''a'', value = 5, prio = 5\<rparr>], position = [''a'' \<mapsto> 0],
      keyfn = (\<lambda>v. v), precedes = (<)\<rparr>"

definition ex_ab :: "(string, int, int) pqdict" where
  "ex_ab =
     \<lparr>heap = [\<lparr>key = ''a'', value = 5, prio = 5\<rparr>, \<lparr>key = ''b'', value = 5, prio = 5\<rparr>],
      position = [''a'' \<mapsto> 0, ''b'' \<mapsto> 1],
      keyfn = (\<lambda>v. v), precedes = (<)\<rparr>"

definition ex_b :: "(string, int, int) pqdict" where
  "ex_b =
     \<lparr>heap = [\<lparr>key = ''b'', value = 5, prio = 5\<rparr>], position = [''b'' \<mapsto> 0],
      keyfn = (\<lambda>v. v), precedes = (<)\<rparr>"

definition ex_rst :: "(string, int, int) pqdict" where
  "ex_rst =
     \<lparr>heap = [\<lparr>key = ''r'', value = 1, prio = 1\<rparr>, \<lparr>key = ''s'', value = 5, prio = 5\<rparr>,
              \<lparr>key = ''t'', value = 3, prio = 3\<rparr>],
      position = [''r'' \<mapsto> 0, ''s'' \<mapsto> 1, ''t'' \<mapsto> 2],
      keyfn = (\<lambda>v. v), precedes = (<)\<rparr>"

definition ex_rust :: "(string, int, int) pqdict" where
  "ex_rust =
     \<lparr>heap = [\<lparr>key = ''r'', value = 1, prio = 1\<rparr>, \<lparr>key = ''u'', value = 4, prio = 4\<rparr>,
              \<lparr>key = ''t'', value = 3, prio = 3\<rparr>, \<lparr>key = ''s'', value = 5, prio = 5\<rparr>],
      position = [''r'' \<mapsto> 0, ''u'' \<mapsto> 1, ''t'' \<mapsto> 2, ''s'' \<mapsto> 3],
      keyfn = (\<lambda>v. v), precedes = (<)\<rparr>"

definition ex_tsu :: "(string, int, int) pqdict" where
  "ex_tsu =
     \<lparr>heap = [\<lparr>key = ''t'', value = 3, prio = 3\<rparr>, \<lparr>key = ''s'', value = 5, prio = 5\<rparr>,
              \<lparr>key = ''u'', value = 4, prio = 4\<rparr>],
      position = [''t'' \<mapsto> 0, ''s'' \<mapsto> 1, ''u'' \<mapsto> 2],
      keyfn = (\<lambda>v. v), precedes = (<)\<rparr>"

definition ex_tus :: "(string, int, int) pqdict" where
  "ex_tus =
     \<lparr>heap = [\<lparr>key = ''t'', value = 3, prio = 3\<rparr>, \<lparr>key = ''u'', value = 4, prio = 4\<rparr>,
              \<lparr>key = ''s'', value = 5, prio = 5\<rparr>],
      position = [''t'' \<mapsto> 0, ''u'' \<mapsto> 1, ''s'' \<mapsto> 2],
      keyfn = (\<lambda>v. v), precedes = (<)\<rparr>"

definition ex_rstu5 :: "(string, int, int) pqdict" where
  "ex_rstu5 =
     \<lparr>heap = [\<lparr>key = ''r'', value = 1, prio = 1\<rparr>, \<lparr>key = ''s'', value = 5, prio = 5\<rparr>,
              \<lparr>key = ''t'', value = 3, prio = 3\<rparr>, \<lparr>key = ''u'', value = 5, prio = 5\<rparr>],
      position = [''r'' \<mapsto> 0, ''s'' \<mapsto> 1, ''t'' \<mapsto> 2, ''u'' \<mapsto> 3],
      keyfn = (\<lambda>v. v), precedes = (<)\<rparr>"

definition ex_tsu5 :: "(string, int, int) pqdict" where
  "ex_tsu5 =
     \<lparr>heap = [\<lparr>key = ''t'', value = 3, prio = 3\<rparr>, \<lparr>key = ''s'', value = 5, prio = 5\<rparr>,
              \<lparr>key = ''u'', value = 5, prio = 5\<rparr>],
      position = [''t'' \<mapsto> 0, ''s'' \<mapsto> 1, ''u'' \<mapsto> 2],
      keyfn = (\<lambda>v. v), precedes = (<)\<rparr>"

definition ex_ties :: "(string, int, int) pqdict" where
  "ex_ties =
     \<lparr>heap = [\<lparr>key = ''a'', value = 1, prio = 1\<rparr>, \<lparr>key = ''b'', value = 1, prio = 1\<rparr>,
              \<lparr>key = ''c'', value = 1, prio = 1\<rparr>],
      position = [''a'' \<mapsto> 0, ''b'' \<mapsto> 1, ''c'' \<mapsto> 2],
      keyfn = (\<lambda>v. v), precedes = (<)\<rparr>"

definition ex_ties_d :: "(string, int, int) pqdict" where
  "ex_ties_d =
     \<lparr>heap = [\<lparr>key = ''d'', value = 0, prio = 0\<rparr>, \<lparr>key = ''a'', value = 1, prio = 1\<rparr>,
              \<lparr>key = ''c'', value = 1, prio = 1\<rparr>, \<lparr>key = ''b'', value = 1, prio = 1\<rparr>],
      position = [''d'' \<mapsto> 0, ''a'' \<mapsto> 1, ''c'' \<mapsto> 2, ''b'' \<mapsto> 3],
      keyfn = (\<lambda>v. v), precedes = (<)\<rparr>"

definition ex_ties_back :: "(string, int, int) pqdict" where
  "ex_ties_back =
     \<lparr>heap = [\<lparr>key = ''b'', value = 1, prio = 1\<rparr>, \<lparr>key = ''a'', value = 1, prio = 1\<rparr>,
              \<lparr>key = ''c'', value = 1, prio = 1\<rparr>],
      position = [''b'' \<mapsto> 0, ''a'' \<mapsto> 1, ''c'' \<mapsto> 2],
      keyfn = (\<lambda>v. v), precedes = (<)\<rparr>"

section \<open>Facts about the restoring algorithms\<close>

lemma heap_swap: "heap (swap q i j) = (heap q)[i := heap q ! j, j := heap q ! i]"
  by (simp add: swap_def)

lemma position_swap:
  "position (swap q i j) = (position q)(key (heap q ! j) \<mapsto> i, key (heap q ! i) \<mapsto> j)"
  by (simp add: swap_def)

lemma length_heap_swap [simp]: "length (heap (swap q i j)) = length (heap q)"
  by (simp add: swap_def)

lemma precedes_swap [simp]: "precedes (swap q i j) = precedes q"
  by (simp add: swap_def)

lemma keyfn_swap [simp]: "keyfn (swap q i j) = keyfn q"
  by (simp add: swap_def)

lemma mset_heap_swap:
  "i < length (heap q) \<Longrightarrow> j < length (heap q) \<Longrightarrow> mset (heap (swap q i j)) = mset (heap q)"
  by (simp add: swap_def mset_swap)

declare swim.simps [simp del] sink.simps [simp del]

lemma parent_less: "0 < pos \<Longrightarrow> parent pos < pos"
  by (simp add: parent_def)

lemma parent_child [simp]:
  "parent (2 * i + 1) = i" "parent (2 * i + 2) = i"
  "parent (Suc (2 * i)) = i" "parent (Suc (Suc (2 * i))) = i"
  by (simp_all add: parent_def)

lemma child_of_parent: "0 < c \<Longrightarrow> c = 2 * parent c + 1 \<or> c = 2 * parent c + 2"
  by (simp add: parent_def) arith

lemma winning_child_cases:
  "winning_child q pos = 2 * pos + 1 \<or> winning_child q pos = 2 * pos + 2"
  by (simp add: winning_child_def Let_def)

lemma winning_child_less:
  "2 * pos + 1 < length (heap q) \<Longrightarrow> winning_child q pos < length (heap q)"
  by (simp add: winning_child_def Let_def)

lemma winning_child_greater: "pos < winning_child q pos"
  by (simp add: winning_child_def Let_def)

lemma parent_winning_child [simp]: "parent (winning_child q pos) = pos"
  using winning_child_cases [of q pos] by (auto simp: parent_def)

lemma swim_stop: "pos = 0 \<or> length (heap q) \<le> pos \<Longrightarrow> swim q pos = q"
  by (subst swim.simps) simp

lemma swim_step:
  "0 < pos \<Longrightarrow> pos < length (heap q) \<Longrightarrow>
   precedes q (prio (heap q ! pos)) (prio (heap q ! parent pos)) \<Longrightarrow>
   swim q pos = swim (swap q pos (parent pos)) (parent pos)"
  by (subst swim.simps) simp

lemma swim_stay:
  "\<not> precedes q (prio (heap q ! pos)) (prio (heap q ! parent pos)) \<Longrightarrow> swim q pos = q"
  by (subst swim.simps) simp

lemma sink_stop: "length (heap q) \<le> 2 * pos + 1 \<Longrightarrow> sink q pos = q"
  by (subst sink.simps) simp

lemma sink_step:
  "2 * pos + 1 < length (heap q) \<Longrightarrow>
   precedes q (prio (heap q ! winning_child q pos)) (prio (heap q ! pos)) \<Longrightarrow>
   sink q pos = sink (swap q pos (winning_child q pos)) (winning_child q pos)"
  by (subst sink.simps) simp

lemma sink_stay:
  "\<not> precedes q (prio (heap q ! winning_child q pos)) (prio (heap q ! pos)) \<Longrightarrow> sink q pos = q"
  by (subst sink.simps) simp

text \<open>Induction along the path that \<open>swim\<close> and \<open>sink\<close> take.\<close>

lemma swim_induct [consumes 0, case_names stop stay step]:
  assumes "\<And>q pos. pos = 0 \<or> length (heap q) \<le> pos \<Longrightarrow> P q pos"
    and "\<And>q pos. 0 < pos \<Longrightarrow> pos < length (heap q) \<Longrightarrow>
           \<not> precedes q (prio (heap q ! pos)) (prio (heap q ! parent pos)) \<Longrightarrow> P q pos"
    and "\<And>q pos. 0 < pos \<Longrightarrow> pos < length (heap q) \<Longrightarrow>
           precedes q (prio (heap q ! pos)) (prio (heap q ! parent pos)) \<Longrightarrow>
           P (swap q pos (parent pos)) (parent pos) \<Longrightarrow> P q pos"
  shows "P q pos"
proof (induction q pos rule: swim.induct)
  case (1 q pos)
  then show ?case using assms by (metis not_le not_gr_zero)
qed

lemma sink_induct [consumes 0, case_names stop stay step]:
  assumes "\<And>q pos. length (heap q) \<le> 2 * pos + 1 \<Longrightarrow> P q pos"
    and "\<And>q pos. 2 * pos + 1 < length (heap q) \<Longrightarrow>
           \<not> precedes q (prio (heap q ! winning_child q pos)) (prio (heap q ! pos)) \<Longrightarrow> P q pos"
    and "\<And>q pos. 2 * pos + 1 < length (heap q) \<Longrightarrow>
           precedes q (prio (heap q ! winning_child q pos)) (prio (heap q ! pos)) \<Longrightarrow>
           P (swap q pos (winning_child q pos)) (winning_child q pos) \<Longrightarrow> P q pos"
  shows "P q pos"
proof (induction q pos rule: sink.induct)
  case (1 q pos)
  then show ?case using assms by (metis not_le)
qed

lemma swim_frame:
  "length (heap (swim q pos)) = length (heap q) \<and> precedes (swim q pos) = precedes q \<and>
   keyfn (swim q pos) = keyfn q \<and> mset (heap (swim q pos)) = mset (heap q)"
proof (induction q pos rule: swim_induct)
  case (stop q pos)
  then show ?case by (simp add: swim_stop)
next
  case (stay q pos)
  then show ?case by (simp add: swim_stay)
next
  case (step q pos)
  then show ?case
    using parent_less [of pos] by (simp add: swim_step mset_heap_swap)
qed

lemma sink_frame:
  "length (heap (sink q pos)) = length (heap q) \<and> precedes (sink q pos) = precedes q \<and>
   keyfn (sink q pos) = keyfn q \<and> mset (heap (sink q pos)) = mset (heap q)"
proof (induction q pos rule: sink_induct)
  case (stop q pos)
  then show ?case by (simp add: sink_stop)
next
  case (stay q pos)
  then show ?case by (simp add: sink_stay)
next
  case (step q pos)
  then show ?case
    using winning_child_less [of pos q] by (simp add: sink_step mset_heap_swap)
qed

section \<open>Index consistency is kept\<close>

lemma index_consistent_iff:
  "index_consistent q \<longleftrightarrow>
     (\<forall>i<length (heap q). position q (key (heap q ! i)) = Some i) \<and>
     (\<forall>k i. position q k = Some i \<longrightarrow> i < length (heap q) \<and> key (heap q ! i) = k)"
  (is "?L \<longleftrightarrow> ?A \<and> ?B")
proof
  assume L: ?L
  then have dom: "dom (position q) = key ` set (heap q)"
    and dist: "distinct (map key (heap q))"
    and pt: "\<And>k. k \<in> dom (position q) \<Longrightarrow>
         the (position q k) < length (heap q) \<and> key (heap q ! the (position q k)) = k"
    by (auto simp: index_consistent_def)
  have B: ?B
  proof (intro allI impI)
    fix k i assume "position q k = Some i"
    with pt [of k] show "i < length (heap q) \<and> key (heap q ! i) = k" by auto
  qed
  have A: ?A
  proof (intro allI impI)
    fix i assume i: "i < length (heap q)"
    then have "key (heap q ! i) \<in> dom (position q)" using dom by auto
    then obtain j where j: "position q (key (heap q ! i)) = Some j" by auto
    with B have "j < length (heap q)" "key (heap q ! j) = key (heap q ! i)" by auto
    with dist i have "j = i"
      by (metis length_map nth_eq_iff_index_eq nth_map)
    with j show "position q (key (heap q ! i)) = Some i" by simp
  qed
  from A B show "?A \<and> ?B" ..
next
  assume AB: "?A \<and> ?B"
  then have A: "\<And>i. i < length (heap q) \<Longrightarrow> position q (key (heap q ! i)) = Some i"
    and B: "\<And>k i. position q k = Some i \<Longrightarrow> i < length (heap q) \<and> key (heap q ! i) = k"
    by auto
  have 1: "\<forall>k \<in> dom (position q).
         the (position q k) < length (heap q) \<and> key (heap q ! the (position q k)) = k"
    using B by auto
  have 2: "dom (position q) = key ` set (heap q)"
  proof (intro set_eqI iffI)
    fix k assume "k \<in> dom (position q)"
    then obtain i where "position q k = Some i" by auto
    with B show "k \<in> key ` set (heap q)" by (metis imageI nth_mem)
  next
    fix k assume "k \<in> key ` set (heap q)"
    then obtain i where "i < length (heap q)" "k = key (heap q ! i)"
      by (auto simp: in_set_conv_nth)
    with A show "k \<in> dom (position q)" by auto
  qed
  have 3: "distinct (map key (heap q))"
    unfolding distinct_conv_nth
  proof (intro allI impI)
    fix i j assume "i < length (map key (heap q))" "j < length (map key (heap q))" "i \<noteq> j"
    then show "map key (heap q) ! i \<noteq> map key (heap q) ! j"
      using A [of i] A [of j] by auto
  qed
  from 1 2 3 show ?L by (simp add: index_consistent_def)
qed

lemma index_consistentD1:
  "index_consistent q \<Longrightarrow> i < length (heap q) \<Longrightarrow> position q (key (heap q ! i)) = Some i"
  by (simp add: index_consistent_iff)

lemma index_consistentD2:
  "index_consistent q \<Longrightarrow> position q k = Some i \<Longrightarrow> i < length (heap q) \<and> key (heap q ! i) = k"
  by (simp add: index_consistent_iff)

lemma index_consistent_keys_inj:
  "index_consistent q \<Longrightarrow> i < length (heap q) \<Longrightarrow> j < length (heap q) \<Longrightarrow>
   key (heap q ! i) = key (heap q ! j) \<Longrightarrow> i = j"
  by (metis index_consistentD1 option.inject)

lemma index_consistent_swap:
  assumes "index_consistent q" "i < length (heap q)" "j < length (heap q)"
  shows "index_consistent (swap q i j)"
proof -
  note D1 = index_consistentD1 [OF assms(1)]
  note D2 = index_consistentD2 [OF assms(1)]
  note inj = index_consistent_keys_inj [OF assms(1)]
  show ?thesis
    unfolding index_consistent_iff
  proof (intro conjI allI impI)
    fix m assume "m < length (heap (swap q i j))"
    then have m: "m < length (heap q)" by simp
    show "position (swap q i j) (key (heap (swap q i j) ! m)) = Some m"
      using m assms(2,3) D1 [of m] inj [of m i] inj [of m j] inj [of i j]
      by (auto simp: swap_def nth_list_update)
  next
    fix k m assume km: "position (swap q i j) k = Some m"
    show "m < length (heap (swap q i j))"
      using km assms(2,3) D2 [of k m] by (auto simp: swap_def split: if_splits)
    show "key (heap (swap q i j) ! m) = k"
      using km assms(2,3) D2 [of k m] D1 [of i] D1 [of j]
      by (auto simp: swap_def nth_list_update split: if_splits)
  qed
qed

lemma index_consistent_swim:
  "index_consistent q \<Longrightarrow> index_consistent (swim q pos)"
proof (induction q pos rule: swim_induct)
  case (stop q pos)
  then show ?case by (simp add: swim_stop)
next
  case (stay q pos)
  then show ?case by (simp add: swim_stay)
next
  case (step q pos)
  then show ?case
    using parent_less [of pos] by (simp add: swim_step index_consistent_swap)
qed

lemma index_consistent_sink:
  "index_consistent q \<Longrightarrow> index_consistent (sink q pos)"
proof (induction q pos rule: sink_induct)
  case (stop q pos)
  then show ?case by (simp add: sink_stop)
next
  case (stay q pos)
  then show ?case by (simp add: sink_stay)
next
  case (step q pos)
  then show ?case
    using winning_child_less [of pos q] winning_child_greater [of pos q]
    by (simp add: sink_step index_consistent_swap)
qed

lemma index_consistent_reheapify:
  "index_consistent q \<Longrightarrow> index_consistent (reheapify q pos)"
  by (simp add: reheapify_def index_consistent_swim index_consistent_sink)

lemma index_consistentI:
  assumes "\<And>i. i < length (heap q) \<Longrightarrow> position q (key (heap q ! i)) = Some i"
    and "\<And>k i. position q k = Some i \<Longrightarrow> i < length (heap q) \<and> key (heap q ! i) = k"
  shows "index_consistent q"
  using assms unfolding index_consistent_iff by blast

lemma index_consistent_append:
  assumes idx: "index_consistent q" and new: "position q k = None" and kn: "key n = k"
  shows "index_consistent (q\<lparr>heap := heap q @ [n],
            position := (position q)(k \<mapsto> length (heap q))\<rparr>)" (is "index_consistent ?q'")
proof (rule index_consistentI)
  note D1 = index_consistentD1 [OF idx]
  fix i assume "i < length (heap ?q')"
  then consider "i < length (heap q)" | "i = length (heap q)" by fastforce
  then show "position ?q' (key (heap ?q' ! i)) = Some i"
  proof cases
    case 1
    with D1 [of i] new have "key (heap q ! i) \<noteq> k" by auto
    with 1 D1 [of i] show ?thesis by (simp add: nth_append)
  next
    case 2
    then show ?thesis by (simp add: kn)
  qed
next
  note D2 = index_consistentD2 [OF idx]
  fix k' i assume "position ?q' k' = Some i"
  then consider "k' = k" "i = length (heap q)" | "k' \<noteq> k" "position q k' = Some i"
    by (auto split: if_splits)
  then show "i < length (heap ?q') \<and> key (heap ?q' ! i) = k'"
  proof cases
    case 1
    then show ?thesis by (simp add: kn)
  next
    case 2
    with D2 [of k' i] show ?thesis by (simp add: nth_append)
  qed
qed

lemma index_consistent_same_keys:
  assumes idx: "index_consistent q"
    and "map key (heap q') = map key (heap q)" "position q' = position q"
  shows "index_consistent q'"
proof -
  have len: "length (heap q') = length (heap q)" using assms(2) by (metis length_map)
  have "\<And>i. i < length (heap q) \<Longrightarrow> key (heap q' ! i) = key (heap q ! i)"
    using assms(2) len by (metis nth_map)
  with idx len assms(3) show ?thesis
    unfolding index_consistent_iff by simp
qed

lemma map_key_revalue:
  "map key (xs[i := (xs ! i)\<lparr>value := v, prio := p\<rparr>]) = map key xs"
  by (cases "i < length xs") (auto simp: list_eq_iff_nth_eq nth_list_update)

lemma index_consistent_remove_last:
  assumes idx: "index_consistent q" and k: "position q k = Some (length (heap q) - 1)"
  shows "index_consistent (q\<lparr>heap := butlast (heap q), position := (position q)(k := None)\<rparr>)"
    (is "index_consistent ?q'")
proof (rule index_consistentI)
  note D1 = index_consistentD1 [OF idx]
  fix i assume "i < length (heap ?q')"
  then have i: "i < length (heap q) - 1" "i < length (heap q)" by auto
  with D1 [of i] k have "key (heap q ! i) \<noteq> k" by auto
  with i D1 [of i] show "position ?q' (key (heap ?q' ! i)) = Some i"
    by (simp add: nth_butlast)
next
  note D2 = index_consistentD2 [OF idx]
  fix k' i assume "position ?q' k' = Some i"
  then have k': "k' \<noteq> k" "position q k' = Some i" by (auto split: if_splits)
  with D2 [of k' i] have i: "i < length (heap q)" "key (heap q ! i) = k'" by auto
  from D2 [OF k] have "key (heap q ! (length (heap q) - 1)) = k" by simp
  with i k' have "i \<noteq> length (heap q) - 1" by auto
  with i show "i < length (heap ?q') \<and> key (heap ?q' ! i) = k'"
    by (simp add: nth_butlast)
qed

lemma index_consistent_remove_inner:
  assumes idx: "index_consistent q" and k: "position q k = Some pos"
    and inner: "pos \<noteq> length (heap q) - 1"
  shows "index_consistent (q\<lparr>heap := (butlast (heap q))[pos := last (heap q)],
            position := ((position q)(k := None))(key (last (heap q)) \<mapsto> pos)\<rparr>)"
    (is "index_consistent ?q'")
proof -
  note D1 = index_consistentD1 [OF idx]
  note D2 = index_consistentD2 [OF idx]
  note inj = index_consistent_keys_inj [OF idx]
  let ?n = "length (heap q)"
  from D2 [OF k] inner have pos: "pos < ?n - 1" "pos < ?n" "key (heap q ! pos) = k" by auto
  then have n: "?n - 1 < ?n" by auto
  then have last: "last (heap q) = heap q ! (?n - 1)"
    by (metis last_conv_nth length_greater_0_conv less_nat_zero_code not_gr_zero)
  have kl: "key (last (heap q)) \<noteq> k"
    using inj [OF pos(2) n] pos last by auto
  show ?thesis
  proof (rule index_consistentI)
    fix i assume "i < length (heap ?q')"
    then have i: "i < ?n - 1" "i < ?n" by auto
    show "position ?q' (key (heap ?q' ! i)) = Some i"
    proof (cases "i = pos")
      case True
      with pos show ?thesis by simp
    next
      case False
      have "key (heap q ! i) \<noteq> key (last (heap q))"
        using inj [OF i(2) n] i last by auto
      moreover have "key (heap q ! i) \<noteq> k"
        using inj [OF i(2) pos(2)] pos False by auto
      ultimately show ?thesis
        using False i D1 [of i] by (simp add: nth_butlast)
    qed
  next
    fix k' i assume "position ?q' k' = Some i"
    then consider "k' = key (last (heap q))" "i = pos"
      | "k' \<noteq> key (last (heap q))" "k' \<noteq> k" "position q k' = Some i"
      by (auto split: if_splits)
    then show "i < length (heap ?q') \<and> key (heap ?q' ! i) = k'"
    proof cases
      case 1
      with pos show ?thesis by simp
    next
      case 2
      with D2 [of k' i] have i: "i < ?n" "key (heap q ! i) = k'" by auto
      with 2 last have "i \<noteq> ?n - 1" by auto
      moreover from 2 i pos have "i \<noteq> pos" by auto
      ultimately show ?thesis using i by (simp add: nth_butlast)
    qed
  qed
qed

lemma index_consistent_replace_root:
  assumes idx: "index_consistent q" and new: "position q k = None" and ne: "heap q \<noteq> []"
    and kn: "key n = k"
  shows "index_consistent (q\<lparr>heap := (heap q)[0 := n],
            position := ((position q)(k \<mapsto> 0))(key (heap q ! 0) := None)\<rparr>)"
    (is "index_consistent ?q'")
proof -
  note D1 = index_consistentD1 [OF idx]
  note D2 = index_consistentD2 [OF idx]
  note inj = index_consistent_keys_inj [OF idx]
  have z: "0 < length (heap q)" using ne by simp
  have root: "position q (key (heap q ! 0)) = Some 0" using D1 [OF z] .
  with new have kr: "key (heap q ! 0) \<noteq> k" by auto
  show ?thesis
  proof (rule index_consistentI)
    fix i assume "i < length (heap ?q')"
    then have i: "i < length (heap q)" by simp
    show "position ?q' (key (heap ?q' ! i)) = Some i"
    proof (cases "i = 0")
      case True
      with z kr show ?thesis by (simp add: kn)
    next
      case False
      have "key (heap q ! i) \<noteq> key (heap q ! 0)" using inj [OF i z] False by auto
      moreover have "key (heap q ! i) \<noteq> k" using D1 [OF i] new by auto
      ultimately show ?thesis using False i D1 [OF i] by simp
    qed
  next
    fix k' i assume "position ?q' k' = Some i"
    then consider "k' = k" "i = 0" | "k' \<noteq> k" "k' \<noteq> key (heap q ! 0)" "position q k' = Some i"
      by (auto split: if_splits)
    then show "i < length (heap ?q') \<and> key (heap ?q' ! i) = k'"
    proof cases
      case 1
      with z show ?thesis by (simp add: kn)
    next
      case 2
      with D2 [of k' i] have i: "i < length (heap q)" "key (heap q ! i) = k'" by auto
      have "i \<noteq> 0"
      proof
        assume "i = 0"
        with i 2 show False by simp
      qed
      with i show ?thesis by simp
    qed
  qed
qed

lemma index_consistent_rekey:
  assumes idx: "index_consistent q" and new: "position q k' = None"
    and k: "position q k = Some pos"
  shows "index_consistent (q\<lparr>position := ((position q)(k := None))(k' \<mapsto> pos),
            heap := (heap q)[pos := (heap q ! pos)\<lparr>key := k'\<rparr>]\<rparr>)"
    (is "index_consistent ?q'")
proof -
  note D1 = index_consistentD1 [OF idx]
  note D2 = index_consistentD2 [OF idx]
  note inj = index_consistent_keys_inj [OF idx]
  from D2 [OF k] have pos: "pos < length (heap q)" "key (heap q ! pos) = k" by auto
  show ?thesis
  proof (rule index_consistentI)
    fix i assume "i < length (heap ?q')"
    then have i: "i < length (heap q)" by simp
    show "position ?q' (key (heap ?q' ! i)) = Some i"
    proof (cases "i = pos")
      case True
      with pos show ?thesis by simp
    next
      case False
      have "key (heap q ! i) \<noteq> k" using inj [OF i pos(1)] pos False by auto
      moreover have "key (heap q ! i) \<noteq> k'" using D1 [OF i] new by auto
      ultimately show ?thesis using False i D1 [OF i] by simp
    qed
  next
    fix ka i assume "position ?q' ka = Some i"
    then consider "ka = k'" "i = pos" | "ka \<noteq> k'" "ka \<noteq> k" "position q ka = Some i"
      by (auto split: if_splits)
    then show "i < length (heap ?q') \<and> key (heap ?q' ! i) = ka"
    proof cases
      case 1
      with pos show ?thesis by simp
    next
      case 2
      with D2 [of ka i] have i: "i < length (heap q)" "key (heap q ! i) = ka" by auto
      with 2 pos have "i \<noteq> pos" by auto
      with i show ?thesis by simp
    qed
  qed
qed

subsection \<open>The methods keep the index consistent\<close>

lemma index_consistent_setitem:
  assumes idx: "index_consistent q"
  shows "case setitem q k v of Inl (e, q') \<Rightarrow> index_consistent q' | Inr q' \<Rightarrow> index_consistent q'"
proof (cases "position q k")
  case None
  have "index_consistent (q\<lparr>heap := heap q @ [\<lparr>key = k, value = v, prio = keyfn q v\<rparr>],
          position := (position q)(k \<mapsto> length (heap q))\<rparr>)"
    by (rule index_consistent_append [OF idx None]) simp
  with None show ?thesis
    by (simp add: setitem_def Let_def index_consistent_swim)
next
  case (Some pos)
  have "index_consistent
      (q\<lparr>heap := (heap q)[pos := (heap q ! pos)\<lparr>value := v, prio := keyfn q v\<rparr>]\<rparr>)"
    by (rule index_consistent_same_keys [OF idx]) (simp_all add: map_key_revalue)
  with Some idx show ?thesis
    by (simp add: setitem_def Let_def index_consistent_reheapify)
qed

lemma index_consistent_delitem:
  assumes idx: "index_consistent q"
  shows "case delitem q k of Inl (e, q') \<Rightarrow> index_consistent q'
         | Inr (r, q') \<Rightarrow> index_consistent q'"
proof (cases "position q k")
  case None
  with idx show ?thesis by (simp add: delitem_def)
next
  case (Some pos)
  from index_consistentD2 [OF idx Some] have pos: "pos < length (heap q)" by simp
  show ?thesis
  proof (cases "pos = length (heap q) - 1")
    case True
    with index_consistent_remove_last [OF idx, of k] Some pos show ?thesis
      by (simp add: delitem_def Let_def)
  next
    case False
    with index_consistent_remove_inner [OF idx Some] Some pos show ?thesis
      by (simp add: delitem_def Let_def index_consistent_reheapify)
  qed
qed

lemma index_consistent_pushpopitem:
  assumes idx: "index_consistent q"
  shows "case pushpopitem q k v of Inl (e, q') \<Rightarrow> index_consistent q'
         | Inr (r, q') \<Rightarrow> index_consistent q'"
proof (cases "\<not> contains q k \<and> heap q \<noteq> [] \<and> precedes q (prio (heap q ! 0)) (keyfn q v)")
  case False
  with idx show ?thesis by (auto simp: pushpopitem_def Let_def)
next
  case True
  then have new: "position q k = None" and ne: "heap q \<noteq> []" by (auto simp: contains_def)
  let ?node = "\<lparr>key = k, value = v, prio = keyfn q v\<rparr>"
  have "position q (key (heap q ! 0)) = Some 0"
    using index_consistentD1 [OF idx, of 0] ne by simp
  then have root: "((position q)(k \<mapsto> 0)) (key (heap q ! 0)) \<noteq> None" by simp
  have "index_consistent (q\<lparr>heap := (heap q)[0 := ?node],
          position := ((position q)(k \<mapsto> 0))(key (heap q ! 0) := None)\<rparr>)"
    by (rule index_consistent_replace_root [OF idx new ne]) simp
  then have "index_consistent (sink (q\<lparr>heap := (heap q)[0 := ?node],
          position := ((position q)(k \<mapsto> 0))(key (heap q ! 0) := None)\<rparr>) 0)"
    by (rule index_consistent_sink)
  with True root show ?thesis
    by (auto simp: pushpopitem_def Let_def)
qed

lemma index_consistent_replace_key:
  assumes idx: "index_consistent q"
  shows "case replace_key q k k' of Inl (e, q') \<Rightarrow> index_consistent q'
         | Inr q' \<Rightarrow> index_consistent q'"
proof (cases "contains q k'")
  case True
  with idx show ?thesis by (simp add: replace_key_def)
next
  case new: False
  show ?thesis
  proof (cases "position q k")
    case None
    with idx new show ?thesis by (simp add: replace_key_def)
  next
    case (Some pos)
    from index_consistentD2 [OF idx Some] have pos: "pos < length (heap q)" by simp
    from new have "position q k' = None" by (simp add: contains_def)
    from index_consistent_rekey [OF idx this Some] Some pos new show ?thesis
      by (simp add: replace_key_def Let_def)
  qed
qed

section \<open>Heap order is restored\<close>

lemma heap_order_iff:
  "heap_order q \<longleftrightarrow>
     (\<forall>c<length (heap q). 0 < c \<longrightarrow> \<not> precedes q (prio (heap q ! c)) (prio (heap q ! parent c)))"
proof
  assume H: "heap_order q"
  show "\<forall>c<length (heap q). 0 < c \<longrightarrow> \<not> precedes q (prio (heap q ! c)) (prio (heap q ! parent c))"
  proof (intro allI impI)
    fix c assume c: "c < length (heap q)" "0 < c"
    then have p: "parent c < length (heap q)" using parent_less [of c] by simp
    from child_of_parent [OF c(2)] have "c \<in> {2 * parent c + 1, 2 * parent c + 2}" by auto
    with H p c(1) show "\<not> precedes q (prio (heap q ! c)) (prio (heap q ! parent c))"
      unfolding heap_order_def by (metis atLeastLessThan_iff zero_le)
  qed
next
  assume R: "\<forall>c<length (heap q). 0 < c \<longrightarrow> \<not> precedes q (prio (heap q ! c)) (prio (heap q ! parent c))"
  show "heap_order q"
    unfolding heap_order_def
  proof (intro ballI impI)
    fix i c assume "c \<in> {2 * i + 1, 2 * i + 2}" "c < length (heap q)"
    then have "0 < c" "parent c = i" by auto
    with R \<open>c < length (heap q)\<close> show "\<not> precedes q (prio (heap q ! c)) (prio (heap q ! i))"
      by auto
  qed
qed

lemma swo_irrefl: "strict_weak_order prec \<Longrightarrow> \<not> prec a a"
  by (simp add: strict_weak_order_def)

lemma swo_trans: "strict_weak_order prec \<Longrightarrow> prec a b \<Longrightarrow> prec b c \<Longrightarrow> prec a c"
  unfolding strict_weak_order_def by blast

lemma swo_asym: "strict_weak_order prec \<Longrightarrow> prec a b \<Longrightarrow> \<not> prec b a"
  unfolding strict_weak_order_def by blast

lemma swo_le_trans:
  "strict_weak_order prec \<Longrightarrow> \<not> prec b a \<Longrightarrow> \<not> prec c b \<Longrightarrow> \<not> prec c a"
  unfolding strict_weak_order_def by blast

lemma swo_less_le_trans:
  "strict_weak_order prec \<Longrightarrow> prec a b \<Longrightarrow> \<not> prec c b \<Longrightarrow> prec a c"
  unfolding strict_weak_order_def by blast

lemma swo_le_less_trans:
  "strict_weak_order prec \<Longrightarrow> \<not> prec b a \<Longrightarrow> prec b c \<Longrightarrow> prec a c"
  unfolding strict_weak_order_def by blast

lemma nth_heap_swap:
  "i < length (heap q) \<Longrightarrow> j < length (heap q) \<Longrightarrow>
   heap (swap q i j) ! m = (if m = j then heap q ! i else if m = i then heap q ! j else heap q ! m)"
  by (simp add: swap_def nth_list_update)

lemma ordered_above_swap:
  assumes swo: "strict_weak_order (precedes q)"
    and pos: "0 < pos" "pos < length (heap q)"
    and prec: "precedes q (prio (heap q ! pos)) (prio (heap q ! parent pos))"
    and inv: "ordered_above q pos"
  shows "ordered_above (swap q pos (parent pos)) (parent pos)"
proof -
  let ?p = "parent pos" and ?h = "heap q" and ?q' = "swap q pos (parent pos)"
  have p: "?p < pos" "?p < length ?h" using parent_less [OF pos(1)] pos(2) by auto
  have nth: "\<And>m. heap ?q' ! m =
      (if m = ?p then ?h ! pos else if m = pos then ?h ! ?p else ?h ! m)"
    using pos p by (simp add: nth_heap_swap)
  have inv1: "\<And>c. c < length ?h \<Longrightarrow> 0 < c \<Longrightarrow> c \<noteq> pos \<Longrightarrow>
      \<not> precedes q (prio (?h ! c)) (prio (?h ! parent c))"
    using inv by (simp add: ordered_above_def)
  have inv2: "\<And>c. c < length ?h \<Longrightarrow> 0 < c \<Longrightarrow> parent c = pos \<Longrightarrow>
      \<not> precedes q (prio (?h ! c)) (prio (?h ! ?p))"
    using inv pos by (simp add: ordered_above_def)
  have A: "\<not> precedes ?q' (prio (heap ?q' ! c)) (prio (heap ?q' ! parent c))"
    if c: "c < length ?h" "0 < c" "c \<noteq> ?p" for c
  proof -
    have pc: "parent c < c" using parent_less [OF c(2)] .
    consider "c = pos" | "c \<noteq> pos" "parent c = ?p" | "c \<noteq> pos" "parent c = pos"
      | "c \<noteq> pos" "parent c \<noteq> ?p" "parent c \<noteq> pos" by blast
    then show ?thesis
    proof cases
      case 1
      then show ?thesis using p prec swo_asym [OF swo] by (simp add: nth)
    next
      case 2
      then show ?thesis
        using c p prec inv1 [OF c(1,2)] swo_trans [OF swo] by (auto simp: nth)
    next
      case 3
      then show ?thesis
        using c p pc inv2 [OF c(1,2)] by (auto simp: nth)
    next
      case 4
      then show ?thesis
        using c inv1 [OF c(1,2)] by (simp add: nth)
    qed
  qed
  have B: "\<not> precedes ?q' (prio (heap ?q' ! c)) (prio (heap ?q' ! parent ?p))"
    if c: "c < length ?h" "0 < ?p" "0 < c" "parent c = ?p" for c
  proof -
    have pp: "parent ?p < ?p" using parent_less [OF c(2)] .
    have 1: "\<not> precedes q (prio (?h ! ?p)) (prio (?h ! parent ?p))"
      using inv1 [of ?p] p c(2) by simp
    show ?thesis
    proof (cases "c = pos")
      case True
      then show ?thesis using 1 p pp by (simp add: nth)
    next
      case False
      have "c \<noteq> ?p" using parent_less [OF c(3)] c(4) by simp
      moreover have "\<not> precedes q (prio (?h ! c)) (prio (?h ! ?p))"
        using inv1 [OF c(1,3) False] c(4) by simp
      ultimately show ?thesis
        using False 1 p pp swo_le_trans [OF swo] by (auto simp: nth)
    qed
  qed
  show ?thesis
    unfolding ordered_above_def using A B by simp
qed

lemma heap_order_swim:
  "strict_weak_order (precedes q) \<Longrightarrow> ordered_above q pos \<Longrightarrow> heap_order (swim q pos)"
proof (induction q pos rule: swim_induct)
  case (stop q pos)
  then show ?case
    by (auto simp: swim_stop heap_order_iff ordered_above_def)
next
  case (stay q pos)
  then show ?case
    by (auto simp: swim_stay heap_order_iff ordered_above_def)
next
  case (step q pos)
  then show ?case
    by (simp add: swim_step ordered_above_swap)
qed

lemma winning_child_best:
  assumes swo: "strict_weak_order (precedes q)"
    and c: "c < length (heap q)" "0 < c" "parent c = pos"
  shows "\<not> precedes q (prio (heap q ! c)) (prio (heap q ! winning_child q pos))"
proof -
  from child_of_parent [OF c(2)] c(3) have "c = 2 * pos + 1 \<or> c = 2 * pos + 2" by simp
  then show ?thesis
    using c(1) swo_irrefl [OF swo] swo_asym [OF swo]
    by (auto simp: winning_child_def Let_def)
qed

lemma ordered_below_around: "ordered_below q pos \<Longrightarrow> ordered_around q pos"
  by (simp add: ordered_below_def ordered_around_def)

lemma ordered_below_swap:
  assumes swo: "strict_weak_order (precedes q)"
    and pos: "2 * pos + 1 < length (heap q)"
    and prec: "precedes q (prio (heap q ! winning_child q pos)) (prio (heap q ! pos))"
    and inv: "ordered_around q pos"
  shows "ordered_below (swap q pos (winning_child q pos)) (winning_child q pos)"
proof -
  let ?w = "winning_child q pos" and ?h = "heap q"
  let ?q' = "swap q pos ?w"
  have w: "pos < ?w" "?w < length ?h" "parent ?w = pos" "pos < length ?h"
    using winning_child_greater [of pos q] winning_child_less [OF pos] pos by auto
  have nth: "\<And>m. heap ?q' ! m =
      (if m = ?w then ?h ! pos else if m = pos then ?h ! ?w else ?h ! m)"
    using w by (simp add: nth_heap_swap)
  have inv1: "\<And>c. c < length ?h \<Longrightarrow> 0 < c \<Longrightarrow> c \<noteq> pos \<Longrightarrow> parent c \<noteq> pos \<Longrightarrow>
      \<not> precedes q (prio (?h ! c)) (prio (?h ! parent c))"
    using inv by (simp add: ordered_around_def)
  have inv2: "\<And>c. c < length ?h \<Longrightarrow> 0 < pos \<Longrightarrow> 0 < c \<Longrightarrow> parent c = pos \<Longrightarrow>
      \<not> precedes q (prio (?h ! c)) (prio (?h ! parent pos))"
    using inv by (simp add: ordered_around_def)
  have A: "\<not> precedes ?q' (prio (heap ?q' ! c)) (prio (heap ?q' ! parent c))"
    if c: "c < length ?h" "0 < c" "parent c \<noteq> ?w" for c
  proof -
    have pc: "parent c < c" using parent_less [OF c(2)] .
    consider "c = ?w" | "c \<noteq> ?w" "parent c = pos" | "c = pos"
      | "c \<noteq> ?w" "c \<noteq> pos" "parent c \<noteq> pos" by blast
    then show ?thesis
    proof cases
      case 1
      then show ?thesis using w prec swo_asym [OF swo] by (simp add: nth)
    next
      case 2
      then show ?thesis
        using c w pc winning_child_best [OF swo c(1,2)] by (auto simp: nth)
    next
      case 3
      then show ?thesis
        using c w pc inv2 [of ?w] by (auto simp: nth)
    next
      case 4
      then show ?thesis
        using c inv1 [OF c(1,2)] by (simp add: nth)
    qed
  qed
  have B: "\<not> precedes ?q' (prio (heap ?q' ! c)) (prio (heap ?q' ! parent ?w))"
    if c: "c < length ?h" "0 < c" "parent c = ?w" for c
  proof -
    have "?w < c" using parent_less [OF c(2)] c(3) by simp
    then show ?thesis
      using w c inv1 [OF c(1,2)] by (auto simp: nth)
  qed
  show ?thesis
    unfolding ordered_below_def using A B by simp
qed

lemma heap_order_sink:
  "strict_weak_order (precedes q) \<Longrightarrow> ordered_below q pos \<Longrightarrow> heap_order (sink q pos)"
proof (induction q pos rule: sink_induct)
  case (stop q pos)
  have "\<not> precedes q (prio (heap q ! c)) (prio (heap q ! parent c))"
    if c: "c < length (heap q)" "0 < c" for c
  proof -
    from child_of_parent [OF c(2)] c(1) stop(1) have "parent c \<noteq> pos" by auto
    with c stop(3) show ?thesis by (simp add: ordered_below_def)
  qed
  then show ?case by (simp add: sink_stop [OF stop(1)] heap_order_iff)
next
  case (stay q pos)
  have "\<not> precedes q (prio (heap q ! c)) (prio (heap q ! parent c))"
    if c: "c < length (heap q)" "0 < c" for c
  proof (cases "parent c = pos")
    case True
    from winning_child_best [OF stay(3) c True] stay(2) True
    show ?thesis using swo_le_trans [OF stay(3)] by blast
  next
    case False
    with c stay(4) show ?thesis by (simp add: ordered_below_def)
  qed
  then show ?case by (simp add: sink_stay [OF stay(2)] heap_order_iff)
next
  case (step q pos)
  then show ?case
    by (simp add: sink_step ordered_below_swap ordered_below_around)
qed

lemma heap_order_ordered_above:
  assumes "strict_weak_order (precedes q)" "heap_order q"
  shows "ordered_above q pos"
  unfolding ordered_above_def
proof (intro conjI allI impI)
  fix c assume "c < length (heap q)" "0 < c \<and> c \<noteq> pos"
  with assms(2) show "\<not> precedes q (prio (heap q ! c)) (prio (heap q ! parent c))"
    by (simp add: heap_order_iff)
next
  fix c assume c: "c < length (heap q)" "0 < pos \<and> 0 < c \<and> parent c = pos"
  then have "pos < length (heap q)" using parent_less [of c] by auto
  with c assms(2) have "\<not> precedes q (prio (heap q ! c)) (prio (heap q ! pos))"
    "\<not> precedes q (prio (heap q ! pos)) (prio (heap q ! parent pos))"
    by (auto simp: heap_order_iff)
  then show "\<not> precedes q (prio (heap q ! c)) (prio (heap q ! parent pos))"
    using swo_le_trans [OF assms(1)] by blast
qed

lemma heap_order_swim_id:
  "strict_weak_order (precedes q) \<Longrightarrow> heap_order q \<Longrightarrow> heap_order (swim q pos)"
  by (simp add: heap_order_swim heap_order_ordered_above)

lemma heap_order_reheapify:
  assumes swo: "strict_weak_order (precedes q)"
    and pos: "pos < length (heap q)"
    and inv: "ordered_around q pos"
  shows "heap_order (reheapify q pos)"
proof -
  let ?w = "winning_child q pos" and ?h = "heap q"
  have inv1: "\<And>c. c < length ?h \<Longrightarrow> 0 < c \<Longrightarrow> c \<noteq> pos \<Longrightarrow> parent c \<noteq> pos \<Longrightarrow>
      \<not> precedes q (prio (?h ! c)) (prio (?h ! parent c))"
    using inv by (simp add: ordered_around_def)
  have inv2: "\<And>c. c < length ?h \<Longrightarrow> 0 < pos \<Longrightarrow> 0 < c \<Longrightarrow> parent c = pos \<Longrightarrow>
      \<not> precedes q (prio (?h ! c)) (prio (?h ! parent pos))"
    using inv by (simp add: ordered_around_def)
  consider (leaf) "length ?h \<le> 2 * pos + 1"
    | (stay) "2 * pos + 1 < length ?h" "\<not> precedes q (prio (?h ! ?w)) (prio (?h ! pos))"
    | (move) "2 * pos + 1 < length ?h" "precedes q (prio (?h ! ?w)) (prio (?h ! pos))"
    by linarith
  then show ?thesis
  proof cases
    case leaf
    have "ordered_above q pos"
      unfolding ordered_above_def
    proof (intro conjI allI impI)
      fix c assume c: "c < length ?h" "0 < c \<and> c \<noteq> pos"
      with child_of_parent [of c] leaf have "parent c \<noteq> pos" by auto
      with c show "\<not> precedes q (prio (?h ! c)) (prio (?h ! parent c))"
        using inv1 by simp
    next
      fix c assume "c < length ?h" "0 < pos \<and> 0 < c \<and> parent c = pos"
      then show "\<not> precedes q (prio (?h ! c)) (prio (?h ! parent pos))"
        using inv2 by simp
    qed
    then show ?thesis
      by (simp add: reheapify_def sink_stop [OF leaf] heap_order_swim swo)
  next
    case stay
    have "ordered_above q pos"
      unfolding ordered_above_def
    proof (intro conjI allI impI)
      fix c assume c: "c < length ?h" "0 < c \<and> c \<noteq> pos"
      show "\<not> precedes q (prio (?h ! c)) (prio (?h ! parent c))"
      proof (cases "parent c = pos")
        case True
        from winning_child_best [OF swo c(1) _ True] c(2) stay(2) True
        show ?thesis using swo_le_trans [OF swo] by blast
      next
        case False
        with c show ?thesis using inv1 by simp
      qed
    next
      fix c assume "c < length ?h" "0 < pos \<and> 0 < c \<and> parent c = pos"
      then show "\<not> precedes q (prio (?h ! c)) (prio (?h ! parent pos))"
        using inv2 by simp
    qed
    then show ?thesis
      by (simp add: reheapify_def sink_stay [OF stay(2)] heap_order_swim swo)
  next
    case move
    let ?q' = "swap q pos ?w"
    have w: "pos < ?w" "?w < length ?h" "parent ?w = pos"
      using winning_child_greater [of pos q] winning_child_less [OF move(1)] by auto
    have "ordered_below ?q' ?w"
      using ordered_below_swap [OF swo move inv] .
    then have "heap_order (sink ?q' ?w)"
      using heap_order_sink [of ?q' ?w] swo by simp
    then have "heap_order (sink q pos)"
      by (simp add: sink_step [OF move])
    moreover have "strict_weak_order (precedes (sink q pos))"
      using swo sink_frame [of q pos] by simp
    ultimately show ?thesis
      by (simp add: reheapify_def heap_order_swim_id)
  qed
qed

lemma ordered_below_root: "ordered_around q 0 \<Longrightarrow> ordered_below q 0"
  by (auto simp: ordered_around_def ordered_below_def)

lemma ordered_around_changed:
  assumes swo: "strict_weak_order (precedes q)" and ord: "heap_order q"
    and len: "length (heap q') \<le> length (heap q)"
    and prec: "precedes q' = precedes q"
    and same: "\<And>c. c < length (heap q') \<Longrightarrow> c \<noteq> pos \<Longrightarrow> prio (heap q' ! c) = prio (heap q ! c)"
  shows "ordered_around q' pos"
  unfolding ordered_around_def
proof (intro conjI allI impI)
  fix c assume c: "c < length (heap q')" "0 < c \<and> c \<noteq> pos \<and> parent c \<noteq> pos"
  then have "parent c < length (heap q')" using parent_less [of c] by simp
  with c same [of c] same [of "parent c"] ord len
  show "\<not> precedes q' (prio (heap q' ! c)) (prio (heap q' ! parent c))"
    by (simp add: heap_order_iff prec)
next
  fix c assume c: "c < length (heap q')" "0 < pos \<and> 0 < c \<and> parent c = pos"
  then have lt: "pos < c" "parent pos < pos" using parent_less [of c] parent_less [of pos] by auto
  from heap_order_ordered_above [OF swo ord, of pos] c len
  have "\<not> precedes q (prio (heap q ! c)) (prio (heap q ! parent pos))"
    by (simp add: ordered_above_def)
  with c lt same [of c] same [of "parent pos"]
  show "\<not> precedes q' (prio (heap q' ! c)) (prio (heap q' ! parent pos))"
    by (simp add: prec)
qed

lemma ordered_above_append:
  assumes ord: "heap_order q"
    and heap: "heap q' = heap q @ [x]" and prec: "precedes q' = precedes q"
  shows "ordered_above q' (length (heap q))"
  unfolding ordered_above_def
proof (intro conjI allI impI)
  fix c assume c: "c < length (heap q')" "0 < c \<and> c \<noteq> length (heap q)"
  then have "c < length (heap q)" "parent c < length (heap q)"
    using parent_less [of c] heap by auto
  with c ord show "\<not> precedes q' (prio (heap q' ! c)) (prio (heap q' ! parent c))"
    by (simp add: heap_order_iff prec heap nth_append)
next
  fix c assume c: "c < length (heap q')"
    "0 < length (heap q) \<and> 0 < c \<and> parent c = length (heap q)"
  then have False using parent_less [of c] heap by auto
  then show "\<not> precedes q' (prio (heap q' ! c)) (prio (heap q' ! parent (length (heap q))))" ..
qed

lemma heap_order_prefix:
  assumes ord: "heap_order q"
    and heap: "heap q' = butlast (heap q)" and prec: "precedes q' = precedes q"
  shows "heap_order q'"
  unfolding heap_order_iff
proof (intro allI impI)
  fix c assume c: "c < length (heap q')" "0 < c"
  then have "c < length (heap q)" "parent c < length (heap q')"
    using parent_less [of c] heap by auto
  with c ord show "\<not> precedes q' (prio (heap q' ! c)) (prio (heap q' ! parent c))"
    by (simp add: heap_order_iff prec heap nth_butlast)
qed

lemma heap_order_same_prios:
  assumes ord: "heap_order q"
    and heap: "map prio (heap q') = map prio (heap q)" and prec: "precedes q' = precedes q"
  shows "heap_order q'"
proof -
  have len: "length (heap q') = length (heap q)" using heap by (metis length_map)
  have "\<And>c. c < length (heap q) \<Longrightarrow> prio (heap q' ! c) = prio (heap q ! c)"
    using heap len by (metis nth_map)
  with ord len show ?thesis
    using parent_less by (simp add: heap_order_iff prec) (metis less_trans)
qed

subsection \<open>The methods keep heap order\<close>

lemma heap_order_setitem:
  assumes swo: "strict_weak_order (precedes q)" and ord: "heap_order q"
  shows "case setitem q k v of Inl (e, q') \<Rightarrow> heap_order q' | Inr q' \<Rightarrow> heap_order q'"
proof (cases "position q k")
  case None
  let ?q1 = "q\<lparr>heap := heap q @ [\<lparr>key = k, value = v, prio = keyfn q v\<rparr>],
               position := (position q)(k \<mapsto> length (heap q))\<rparr>"
  have "ordered_above ?q1 (length (heap q))"
    by (rule ordered_above_append [OF ord]) simp_all
  then have "heap_order (swim ?q1 (length (heap q)))"
    using swo by (simp add: heap_order_swim)
  with None show ?thesis by (simp add: setitem_def Let_def)
next
  case (Some pos)
  show ?thesis
  proof (cases "pos < length (heap q)")
    case True
    let ?q1 = "q\<lparr>heap := (heap q)[pos := (heap q ! pos)\<lparr>value := v, prio := keyfn q v\<rparr>]\<rparr>"
    have "ordered_around ?q1 pos"
      by (rule ordered_around_changed [OF swo ord]) simp_all
    then have "heap_order (reheapify ?q1 pos)"
      using swo True by (simp add: heap_order_reheapify)
    with Some True show ?thesis by (simp add: setitem_def Let_def)
  next
    case False
    with Some ord show ?thesis by (simp add: setitem_def Let_def)
  qed
qed

lemma heap_order_delitem:
  assumes swo: "strict_weak_order (precedes q)" and ord: "heap_order q"
  shows "case delitem q k of Inl (e, q') \<Rightarrow> heap_order q' | Inr (r, q') \<Rightarrow> heap_order q'"
proof (cases "position q k")
  case None
  with ord show ?thesis by (simp add: delitem_def)
next
  case (Some pos)
  show ?thesis
  proof (cases "pos < length (heap q)")
    case False
    have "heap_order (q\<lparr>position := (position q)(k := None)\<rparr>)"
      by (rule heap_order_same_prios [OF ord]) simp_all
    with Some False show ?thesis by (simp add: delitem_def Let_def)
  next
    case True
    show ?thesis
    proof (cases "pos = length (heap q) - 1")
      case last: True
      have "heap_order (q\<lparr>heap := butlast (heap q), position := (position q)(k := None)\<rparr>)"
        by (rule heap_order_prefix [OF ord]) simp_all
      with Some True last show ?thesis by (simp add: delitem_def Let_def)
    next
      case inner: False
      let ?q1 = "q\<lparr>heap := (butlast (heap q))[pos := last (heap q)],
                   position := ((position q)(k := None))(key (last (heap q)) \<mapsto> pos)\<rparr>"
      have "ordered_around ?q1 pos"
        by (rule ordered_around_changed [OF swo ord]) (simp_all add: nth_butlast)
      then have "heap_order (reheapify ?q1 pos)"
        using swo True inner by (simp add: heap_order_reheapify)
      with Some True inner show ?thesis by (simp add: delitem_def Let_def)
    qed
  qed
qed

lemma heap_order_pushpopitem:
  assumes swo: "strict_weak_order (precedes q)" and ord: "heap_order q"
    and idx: "index_consistent q"
  shows "case pushpopitem q k v of Inl (e, q') \<Rightarrow> heap_order q' | Inr (r, q') \<Rightarrow> heap_order q'"
proof (cases "\<not> contains q k \<and> heap q \<noteq> [] \<and> precedes q (prio (heap q ! 0)) (keyfn q v)")
  case False
  with ord show ?thesis by (auto simp: pushpopitem_def Let_def)
next
  case True
  let ?node = "\<lparr>key = k, value = v, prio = keyfn q v\<rparr>"
  let ?q1 = "q\<lparr>heap := (heap q)[0 := ?node], position := (position q)(k \<mapsto> 0)\<rparr>"
  let ?q2 = "?q1\<lparr>position := (position ?q1)(key (heap q ! 0) := None)\<rparr>"
  have "position q (key (heap q ! 0)) = Some 0"
    using index_consistentD1 [OF idx, of 0] True by simp
  then have root: "position ?q1 (key (heap q ! 0)) \<noteq> None" by simp
  have "ordered_around ?q2 0"
    by (rule ordered_around_changed [OF swo ord]) simp_all
  then have "ordered_below ?q2 0" by (rule ordered_below_root)
  then have "heap_order (sink ?q2 0)"
    using swo by (intro heap_order_sink) simp_all
  with True root show ?thesis
    by (auto simp: pushpopitem_def Let_def)
qed

lemma map_prio_rekey: "map prio (xs[i := (xs ! i)\<lparr>key := k\<rparr>]) = map prio xs"
  by (cases "i < length xs") (auto simp: list_eq_iff_nth_eq nth_list_update)

lemma map_value_rekey: "map value (xs[i := (xs ! i)\<lparr>key := k\<rparr>]) = map value xs"
  by (cases "i < length xs") (auto simp: list_eq_iff_nth_eq nth_list_update)

lemma heap_order_replace_key:
  assumes ord: "heap_order q"
  shows "case replace_key q k k' of Inl (e, q') \<Rightarrow> heap_order q' | Inr q' \<Rightarrow> heap_order q'"
proof (cases "position q k")
  case None
  with ord show ?thesis by (simp add: replace_key_def)
next
  case (Some pos)
  let ?q1 = "q\<lparr>position := ((position q)(k := None))(k' \<mapsto> pos)\<rparr>"
  have 1: "heap_order ?q1"
    by (rule heap_order_same_prios [OF ord]) simp_all
  have 2: "heap_order (?q1\<lparr>heap := (heap q)[pos := (heap q ! pos)\<lparr>key := k'\<rparr>]\<rparr>)"
    by (rule heap_order_same_prios [OF ord]) (simp_all add: map_prio_rekey)
  from Some ord 1 2 show ?thesis
    by (simp add: replace_key_def Let_def)
qed

section \<open>Lookups and deletion\<close>

lemma reheapify_frame:
  "length (heap (reheapify q pos)) = length (heap q) \<and>
   precedes (reheapify q pos) = precedes q \<and>
   keyfn (reheapify q pos) = keyfn q \<and> mset (heap (reheapify q pos)) = mset (heap q)"
  using swim_frame [of "sink q pos" pos] sink_frame [of q pos] by (simp add: reheapify_def)

lemma getitem_Inr_iff:
  assumes idx: "index_consistent q"
  shows "getitem q k = Inr v \<longleftrightarrow> (\<exists>n \<in> set (heap q). key n = k \<and> value n = v)"
proof
  assume "getitem q k = Inr v"
  then obtain pos where pos: "position q k = Some pos" "pos < length (heap q)"
    "value (heap q ! pos) = v"
    by (auto simp: getitem_def split: option.splits if_splits)
  with index_consistentD2 [OF idx pos(1)] show "\<exists>n \<in> set (heap q). key n = k \<and> value n = v"
    by (metis nth_mem)
next
  assume "\<exists>n \<in> set (heap q). key n = k \<and> value n = v"
  then obtain i where i: "i < length (heap q)" "key (heap q ! i) = k" "value (heap q ! i) = v"
    by (auto simp: in_set_conv_nth)
  with index_consistentD1 [OF idx i(1)] show "getitem q k = Inr v"
    by (simp add: getitem_def)
qed

lemma getitem_Inl_iff:
  assumes idx: "index_consistent q"
  shows "getitem q k = Inl e \<longleftrightarrow> e = KeyError_missing k \<and> k \<notin> key ` set (heap q)"
proof -
  have dom: "dom (position q) = key ` set (heap q)"
    using idx by (simp add: index_consistent_def)
  show ?thesis
  proof (cases "position q k")
    case None
    with dom show ?thesis by (auto simp: getitem_def)
  next
    case (Some pos)
    with index_consistentD2 [OF idx Some] dom show ?thesis
      by (auto simp: getitem_def)
  qed
qed

lemma getitem_cong:
  assumes "index_consistent q" "index_consistent q'"
    and "\<And>n. key n = k \<Longrightarrow> n \<in> set (heap q') \<longleftrightarrow> n \<in> set (heap q)"
  shows "getitem q' k = getitem q k"
proof (cases "getitem q k")
  case (Inl e)
  with getitem_Inl_iff [OF assms(1), of k e] have "e = KeyError_missing k" "k \<notin> key ` set (heap q)"
    by auto
  with assms(3) have "k \<notin> key ` set (heap q')" by auto
  with getitem_Inl_iff [OF assms(2), of k e] Inl \<open>e = KeyError_missing k\<close> show ?thesis by simp
next
  case (Inr v)
  with getitem_Inr_iff [OF assms(1), of k v] assms(3)
  have "\<exists>n \<in> set (heap q'). key n = k \<and> value n = v" by auto
  with getitem_Inr_iff [OF assms(2), of k v] Inr show ?thesis by simp
qed

lemma delitem_present:
  assumes idx: "index_consistent q" and k: "position q k = Some pos"
  shows "\<exists>q'. delitem q k = Inr (None, q') \<and> index_consistent q' \<and>
           add_mset (heap q ! pos) (mset (heap q')) = mset (heap q) \<and>
           precedes q' = precedes q \<and> keyfn q' = keyfn q"
proof -
  from index_consistentD2 [OF idx k] have pos: "pos < length (heap q)" by simp
  then have ne: "heap q \<noteq> []" by auto
  have bl: "add_mset (last (heap q)) (mset (butlast (heap q))) = mset (heap q)"
  proof -
    have "mset (butlast (heap q) @ [last (heap q)]) = mset (heap q)"
      using ne by simp
    then show ?thesis by simp
  qed
  show ?thesis
  proof (cases "pos = length (heap q) - 1")
    case True
    then have "heap q ! pos = last (heap q)" using ne by (simp add: last_conv_nth)
    with True bl index_consistent_remove_last [OF idx, of k] k pos show ?thesis
      by (simp add: delitem_def Let_def)
  next
    case False
    let ?q1 = "q\<lparr>heap := (butlast (heap q))[pos := last (heap q)],
                 position := ((position q)(k := None))(key (last (heap q)) \<mapsto> pos)\<rparr>"
    from False pos have p: "pos < length (butlast (heap q))" by simp
    then have nth: "butlast (heap q) ! pos = heap q ! pos" by (simp add: nth_butlast)
    have mem: "heap q ! pos \<in># mset (butlast (heap q))"
      using p nth by (metis nth_mem_mset)
    have "mset (heap ?q1) =
        add_mset (last (heap q)) (mset (butlast (heap q)) - {#heap q ! pos#})"
      using p nth by (simp add: mset_update)
    then have "add_mset (heap q ! pos) (mset (heap ?q1)) =
        add_mset (last (heap q))
          (add_mset (heap q ! pos) (mset (butlast (heap q)) - {#heap q ! pos#}))"
      by (simp only: add_mset_commute)
    also have "\<dots> = add_mset (last (heap q)) (mset (butlast (heap q)))"
      using mem by (simp only: insert_DiffM)
    finally have "add_mset (heap q ! pos) (mset (heap ?q1)) = mset (heap q)"
      using bl by simp
    moreover have "delitem q k = Inr (None, reheapify ?q1 pos)"
      using k pos False by (simp add: delitem_def Let_def)
    moreover have "index_consistent (reheapify ?q1 pos)"
      using index_consistent_remove_inner [OF idx k False] by (rule index_consistent_reheapify)
    ultimately show ?thesis
      using reheapify_frame [of ?q1 pos] by simp
  qed
qed

lemma length_heap_reheapify: "length (heap (reheapify q pos)) = length (heap q)"
  using reheapify_frame [of q pos] by simp

lemma delitem_length:
  assumes "delitem q k = Inr (r, q')"
  shows "length (heap q') < length (heap q)"
proof -
  from assms obtain pos where pos: "position q k = Some pos" "pos < length (heap q)"
    by (auto simp: delitem_def Let_def split: option.splits if_splits)
  with assms show ?thesis
    by (auto simp: delitem_def Let_def length_heap_reheapify split: if_splits)
qed

section \<open>Draining the queue\<close>

text \<open>The loop ends: every successful deletion shortens the array by one.\<close>

termination drain
  by (relation "measure (\<lambda>q. length (heap q))") (auto simp: delitem_length)

declare drain.simps [simp del]

lemma root_first:
  assumes swo: "strict_weak_order (precedes q)" and ord: "heap_order q"
  shows "i < length (heap q) \<Longrightarrow> \<not> precedes q (prio (heap q ! i)) (prio (heap q ! 0))"
proof (induction i rule: less_induct)
  case (less i)
  show ?case
  proof (cases "i = 0")
    case True
    then show ?thesis using swo_irrefl [OF swo] by simp
  next
    case False
    then have p: "parent i < i" by (simp add: parent_less)
    with less have "\<not> precedes q (prio (heap q ! parent i)) (prio (heap q ! 0))" by simp
    moreover from ord less.prems False
    have "\<not> precedes q (prio (heap q ! i)) (prio (heap q ! parent i))"
      by (simp add: heap_order_iff)
    ultimately show ?thesis using swo_le_trans [OF swo] by blast
  qed
qed

section \<open>Insertion followed by removal of the top\<close>

lemma pushpopitem_displaces:
  assumes idx: "index_consistent q" and new: "\<not> contains q k"
    and top: "heap q \<noteq> []" "precedes q (prio (heap q ! 0)) (keyfn q v)"
  shows "pushpopitem q k v =
     Inr ((key (heap q ! 0), value (heap q ! 0)),
       sink (q\<lparr>heap := (heap q)[0 := \<lparr>key = k, value = v, prio = keyfn q v\<rparr>],
               position := ((position q)(k \<mapsto> 0))(key (heap q ! 0) := None)\<rparr>) 0)"
proof -
  from top have "position q (key (heap q ! 0)) = Some 0"
    using index_consistentD1 [OF idx, of 0] by simp
  then have "((position q)(k \<mapsto> 0)) (key (heap q ! 0)) \<noteq> None" by simp
  with top new show ?thesis
    by (auto simp: pushpopitem_def Let_def)
qed

lemma pushpopitem_keeps:
  assumes new: "\<not> contains q k"
    and top: "\<not> (heap q \<noteq> [] \<and> precedes q (prio (heap q ! 0)) (keyfn q v))"
  shows "pushpopitem q k v = Inr ((k, v), q)"
  using assms by (auto simp: pushpopitem_def Let_def)

lemma swim_root:
  "pos < length (heap q) \<Longrightarrow>
   heap (swim q pos) ! 0 = heap q ! 0 \<or>
   (heap (swim q pos) ! 0 = heap q ! pos \<and>
    precedes q (prio (heap q ! pos)) (prio (heap q ! 0)))"
proof (induction q pos rule: swim_induct)
  case (stop q pos)
  then show ?case by (simp add: swim_stop)
next
  case (stay q pos)
  then show ?case by (simp add: swim_stay)
next
  case (step q pos)
  let ?p = "parent pos"
  have p: "?p < pos" "?p < length (heap q)" using parent_less [OF step(1)] step(2) by auto
  have nth: "\<And>m. heap (swap q pos ?p) ! m =
      (if m = ?p then heap q ! pos else if m = pos then heap q ! ?p else heap q ! m)"
    using step(2) p by (simp add: nth_heap_swap)
  have s0: "heap (swap q pos ?p) ! 0 = (if ?p = 0 then heap q ! pos else heap q ! 0)"
    using nth [of 0] step(1) by simp
  have sp: "heap (swap q pos ?p) ! ?p = heap q ! pos"
    using nth [of ?p] by simp
  from step(4) p have IH: "heap (swim q pos) ! 0 = heap (swap q pos ?p) ! 0 \<or>
      (heap (swim q pos) ! 0 = heap (swap q pos ?p) ! ?p \<and>
       precedes q (prio (heap (swap q pos ?p) ! ?p)) (prio (heap (swap q pos ?p) ! 0)))"
    using swim_step [OF step(1,2,3)] by auto
  show ?case
  proof (cases "?p = 0")
    case True
    with IH step(3) show ?thesis unfolding s0 sp by auto
  next
    case False
    with IH show ?thesis unfolding s0 sp by auto
  qed
qed

lemma setitem_new:
  assumes swo: "strict_weak_order (precedes q)" and ord: "heap_order q"
    and idx: "index_consistent q" and new: "\<not> contains q k"
  shows "\<exists>q2. additem q k v = Inr q2 \<and> heap_order q2 \<and> index_consistent q2 \<and>
           precedes q2 = precedes q \<and> keyfn q2 = keyfn q \<and>
           mset (heap q2) = add_mset \<lparr>key = k, value = v, prio = keyfn q v\<rparr> (mset (heap q)) \<and>
           heap q2 \<noteq> [] \<and>
           ((heap q2 ! 0 = \<lparr>key = k, value = v, prio = keyfn q v\<rparr> \<and>
             (heap q \<noteq> [] \<longrightarrow> precedes q (keyfn q v) (prio (heap q ! 0)))) \<or>
            (heap q \<noteq> [] \<and> heap q2 ! 0 = heap q ! 0))"
proof -
  let ?x = "\<lparr>key = k, value = v, prio = keyfn q v\<rparr>"
  let ?S = "q\<lparr>heap := heap q @ [?x], position := (position q)(k \<mapsto> length (heap q))\<rparr>"
  let ?q2 = "swim ?S (length (heap q))"
  from new have none: "position q k = None" by (simp add: contains_def)
  then have add: "additem q k v = Inr ?q2" by (simp add: additem_def setitem_def Let_def)
  from heap_order_setitem [OF swo ord, of k v] index_consistent_setitem [OF idx, of k v] none
  have inv: "heap_order ?q2" "index_consistent ?q2"
    by (simp_all add: setitem_def Let_def)
  from swim_frame [of ?S "length (heap q)"]
  have fr: "precedes ?q2 = precedes q" "keyfn ?q2 = keyfn q" "mset (heap ?q2) = add_mset ?x (mset (heap q))"
    by simp_all
  from fr(3) have ne: "heap ?q2 \<noteq> []" by (metis mset_zero_iff empty_not_add_mset)
  from swim_root [of "length (heap q)" ?S]
  have "heap ?q2 ! 0 = heap ?S ! 0 \<or>
      (heap ?q2 ! 0 = ?x \<and> precedes q (keyfn q v) (prio (heap ?S ! 0)))" by auto
  then have "(heap ?q2 ! 0 = ?x \<and>
       (heap q \<noteq> [] \<longrightarrow> precedes q (keyfn q v) (prio (heap q ! 0)))) \<or>
      (heap q \<noteq> [] \<and> heap ?q2 ! 0 = heap q ! 0)"
    by (cases "heap q") (auto simp: nth_append)
  with add inv fr ne show ?thesis by blast
qed

lemma topitem_nth:
  "heap q \<noteq> [] \<Longrightarrow> topitem q = Inr (key (heap q ! 0), value (heap q ! 0))"
  by (cases "heap q") (simp_all add: topitem_def)

lemma getitem_same_entries:
  assumes "index_consistent q" "index_consistent q'" "mset (heap q') = mset (heap q)"
  shows "getitem q' k = getitem q k"
proof (rule getitem_cong [OF assms(1,2)])
  fix n :: "('a, 'b, 'c) Node"
  from assms(3) have "set (heap q') = set (heap q)" by (metis set_mset_mset)
  then show "n \<in> set (heap q') \<longleftrightarrow> n \<in> set (heap q)" by simp
qed

section \<open>Insertion followed by removal of the same key\<close>

lemma sink_id:
  assumes swo: "strict_weak_order (precedes q)" and ord: "heap_order q"
  shows "sink q pos = q"
proof (cases "length (heap q) \<le> 2 * pos + 1")
  case True
  then show ?thesis by (rule sink_stop)
next
  case False
  then have w: "winning_child q pos < length (heap q)" "0 < winning_child q pos"
    using winning_child_less [of pos q] winning_child_greater [of pos q] by auto
  with ord have "\<not> precedes q (prio (heap q ! winning_child q pos)) (prio (heap q ! pos))"
    unfolding heap_order_iff by (metis parent_winning_child)
  then show ?thesis by (rule sink_stay)
qed

lemma swim_id:
  assumes ord: "heap_order q"
  shows "swim q pos = q"
proof (cases "pos = 0 \<or> length (heap q) \<le> pos")
  case True
  then show ?thesis by (rule swim_stop)
next
  case False
  with ord have "\<not> precedes q (prio (heap q ! pos)) (prio (heap q ! parent pos))"
    by (simp add: heap_order_iff)
  then show ?thesis by (rule swim_stay)
qed

lemma swap_swap:
  assumes idx: "index_consistent q" and i: "i < length (heap q)" and j: "j < length (heap q)"
  shows "swap (swap q i j) j i = q"
proof (rule pqdict.equality)
  show "heap (swap (swap q i j) j i) = heap q"
    using i j by (auto simp: swap_def list_eq_iff_nth_eq nth_list_update)
  have pi: "position q (key (heap q ! i)) = Some i" and pj: "position q (key (heap q ! j)) = Some j"
    using index_consistentD1 [OF idx] i j by auto
  show "position (swap (swap q i j) j i) = position q"
    using i j pi pj by (auto simp: swap_def fun_eq_iff nth_list_update)
qed (simp_all add: swap_def)

lemma detach_swap:
  assumes idx: "index_consistent q" and k: "position q k = Some pos"
    and pos: "pos < length (heap q) - 1" and p: "p < pos"
  shows "detach (swap q pos p) k p = swap (detach q k pos) pos p"
proof (rule pqdict.equality)
  note D1 = index_consistentD1 [OF idx]
  note inj = index_consistent_keys_inj [OF idx]
  let ?n = "length (heap q) - 1"
  let ?h = "heap q"
  have lt: "pos < length ?h" "p < length ?h" "?n < length ?h" "p < ?n" using pos p by auto
  have last: "last ?h = ?h ! ?n" using lt by (metis last_conv_nth length_greater_0_conv less_nat_zero_code not_gr_zero)
  have kp: "key (?h ! pos) = k" using index_consistentD2 [OF idx k] by simp
  have last': "last (?h[pos := ?h ! p, p := ?h ! pos]) = last ?h"
  proof -
    have "?h \<noteq> []" using lt by auto
    then show ?thesis using lt pos by (simp add: last_list_update)
  qed
  have len: "length (heap (detach (swap q pos p) k p)) = ?n"
    "length (heap (swap (detach q k pos) pos p)) = ?n"
    by (simp_all add: detach_def swap_def)
  have hd: "heap (detach q k pos) = (butlast ?h)[pos := last ?h]"
    by (simp add: detach_def)
  have L: "heap (detach (swap q pos p) k p) ! m =
      (if m = p then last ?h else if m = pos then ?h ! p else ?h ! m)" if "m < ?n" for m
  proof -
    have "heap (detach (swap q pos p) k p) =
        (butlast (?h[pos := ?h ! p, p := ?h ! pos]))[p := last ?h]"
      by (simp add: detach_def swap_def last')
    then show ?thesis using that lt pos p
      by (simp add: nth_list_update nth_butlast)
  qed
  have R: "heap (swap (detach q k pos) pos p) ! m =
      (if m = p then last ?h else if m = pos then ?h ! p else ?h ! m)" if "m < ?n" for m
  proof -
    have "heap (swap (detach q k pos) pos p) =
        ((butlast ?h)[pos := last ?h])[pos := ((butlast ?h)[pos := last ?h]) ! p,
           p := ((butlast ?h)[pos := last ?h]) ! pos]"
      by (simp add: swap_def hd)
    then show ?thesis using that lt pos p
      by (simp add: nth_list_update nth_butlast)
  qed
  show "heap (detach (swap q pos p) k p) = heap (swap (detach q k pos) pos p)"
    unfolding list_eq_iff_nth_eq len using L R by simp
  have ne1: "key (last ?h) \<noteq> key (?h ! p)" using inj [OF lt(3) lt(2)] lt(4) last by auto
  have ne2: "k \<noteq> key (?h ! p)" using inj [OF lt(1) lt(2)] kp p by auto
  have ne3: "key (last ?h) \<noteq> k" using inj [OF lt(3) lt(1)] kp pos last by auto
  have dp: "heap (detach q k pos) ! p = ?h ! p" "heap (detach q k pos) ! pos = last ?h"
    using lt pos p by (simp_all add: hd nth_list_update nth_butlast)
  have PL: "position (detach (swap q pos p) k p) =
      (((position q)(key (?h ! p) \<mapsto> pos, k \<mapsto> p))(k := None))(key (last ?h) \<mapsto> p)"
    by (simp add: detach_def swap_def last' kp)
  have PR: "position (swap (detach q k pos) pos p) =
      (((position q)(k := None))(key (last ?h) \<mapsto> pos))(key (?h ! p) \<mapsto> pos,
         key (last ?h) \<mapsto> p)"
    unfolding swap_def by (simp add: dp) (simp add: detach_def)
  show "position (detach (swap q pos p) k p) = position (swap (detach q k pos) pos p)"
    unfolding PL PR using ne1 ne2 ne3 by (auto simp: fun_eq_iff)
qed (simp_all add: detach_def swap_def)

lemma no_tiesD:
  "no_ties q \<Longrightarrow> i < length (heap q) \<Longrightarrow> j < length (heap q) \<Longrightarrow> i \<noteq> j \<Longrightarrow>
   \<not> precedes q (prio (heap q ! j)) (prio (heap q ! i)) \<Longrightarrow>
   precedes q (prio (heap q ! i)) (prio (heap q ! j))"
  unfolding no_ties_def by blast

lemma heap_orderD:
  "heap_order q \<Longrightarrow> c < length (heap q) \<Longrightarrow> 0 < c \<Longrightarrow>
   \<not> precedes q (prio (heap q ! c)) (prio (heap q ! parent c))"
  by (simp add: heap_order_iff)

lemma detach_first_swap:
  assumes idx: "index_consistent s" and len: "length (heap s) = Suc n"
    and k: "position s k = Some n" and p: "p < n"
  shows "detach (swap s n p) k p =
     s\<lparr>heap := butlast (heap s), position := (position s)(k := None)\<rparr>"
proof (rule pqdict.equality)
  let ?h = "heap s"
  have lt: "n < length ?h" "p < length ?h" using p len by auto
  then have ne: "?h \<noteq> []" by auto
  have kn: "key (?h ! n) = k" using index_consistentD2 [OF idx k] by simp
  have pp: "position s (key (?h ! p)) = Some p" using index_consistentD1 [OF idx lt(2)] .
  have nk: "key (?h ! p) \<noteq> k" using pp k p by auto
  have last': "last (?h[n := ?h ! p, p := ?h ! n]) = ?h ! p"
    using ne p len by (simp add: last_list_update)
  have bl: "butlast (?h[n := ?h ! p, p := ?h ! n]) = (butlast ?h)[p := ?h ! n]"
    using p len by (auto simp: list_eq_iff_nth_eq nth_butlast nth_list_update)
  have "heap (detach (swap s n p) k p) = (butlast ?h)[p := ?h ! p]"
    by (simp add: detach_def swap_def last' bl)
  also have "\<dots> = butlast ?h"
    using p len by (auto simp: list_eq_iff_nth_eq nth_butlast nth_list_update)
  finally show "heap (detach (swap s n p) k p) =
      heap (s\<lparr>heap := butlast ?h, position := (position s)(k := None)\<rparr>)" by simp
  have "position (detach (swap s n p) k p) =
      (((position s)(key (?h ! p) \<mapsto> n, k \<mapsto> p))(k := None))(key (?h ! p) \<mapsto> p)"
    by (simp add: detach_def swap_def last' kn)
  also have "\<dots> = (position s)(k := None)"
    using pp nk by (auto simp: fun_eq_iff)
  finally show "position (detach (swap s n p) k p) =
      position (s\<lparr>heap := butlast ?h, position := (position s)(k := None)\<rparr>)" by simp
qed (simp_all add: detach_def swap_def)

lemma detach_nth:
  assumes "pos < length (heap s) - 1" "m < length (heap s) - 1"
  shows "heap (detach s k pos) ! m = (if m = pos then last (heap s) else heap s ! m)"
  using assms by (simp add: detach_def nth_list_update nth_butlast)

lemma restorable_step:
  assumes swo: "strict_weak_order (precedes q)" and ord: "heap_order q"
    and nt: "no_ties q"
    and inv: "restorable q k s pos"
    and pos: "0 < pos" "pos < length (heap s)"
    and prec: "precedes s (prio (heap s ! pos)) (prio (heap s ! parent pos))"
  shows "restorable q k (swap s pos (parent pos)) (parent pos)"
proof -
  let ?n = "length (heap q)" and ?p = "parent pos" and ?s' = "swap s pos (parent pos)"
  from inv have len: "length (heap s) = Suc ?n" and le: "pos \<le> ?n"
    and idx: "index_consistent s" and k: "position s k = Some pos"
    and pr: "precedes s = precedes q"
    and A: "\<And>i. i < ?n \<Longrightarrow> i < pos \<or> (i = pos + 1 \<and> 0 < pos) \<Longrightarrow> heap s ! i = heap q ! i"
    and inner: "pos < ?n \<Longrightarrow> pos \<le> parent ?n \<and> last (heap s) = heap q ! parent ?n \<and>
        sink (detach s k pos) pos = q"
    and first: "pos = ?n \<Longrightarrow>
        s\<lparr>heap := butlast (heap s), position := (position s)(k := None)\<rparr> = q"
    and up: "\<not> precedes q (prio (heap q ! parent ?n)) (prio (heap q ! ?p))"
    using pos(1) unfolding restorable_def by (simp_all (no_asm_simp)) blast+
  have p: "?p < pos" "?p < ?n" "?p < length (heap s)"
    using parent_less [OF pos(1)] le len by auto
  have ch: "pos = 2 * ?p + 1 \<or> pos = 2 * ?p + 2" using child_of_parent [OF pos(1)] .
  have nth: "\<And>m. heap ?s' ! m =
      (if m = ?p then heap s ! pos else if m = pos then heap s ! ?p else heap s ! m)"
    using pos(2) p by (simp add: nth_heap_swap)
  have kp: "key (heap s ! pos) = k" using index_consistentD2 [OF idx k] by simp
  have sp: "heap s ! ?p = heap q ! ?p" using A [of ?p] p by simp
  have ne: "heap s \<noteq> []" "heap ?s' \<noteq> []" using len by (auto simp: swap_def)
  have last_s: "last (heap s) = heap s ! ?n" using len ne by (simp add: last_conv_nth)
  have c1: "length (heap ?s') = ?n + 1" using len by simp
  have c2: "?p \<le> ?n" using p by simp
  have c3: "index_consistent ?s'" using idx pos(2) p(3) by (rule index_consistent_swap)
  have c4: "position ?s' k = Some ?p" by (simp add: position_swap kp)
  have c5: "precedes ?s' = precedes q" by (simp add: pr)
  have c6: "heap ?s' ! i = heap q ! i" if "i < ?n" "i < ?p \<or> (i = ?p + 1 \<and> 0 < ?p)" for i
  proof -
    from that(2) p(1) ch have "i \<noteq> ?p" "i \<noteq> pos" "i < pos" by auto
    with A [OF that(1)] show ?thesis by (simp add: nth)
  qed
  have c7a: "?p \<le> parent ?n"
  proof (cases "pos = ?n")
    case True
    then show ?thesis by simp
  next
    case False
    with le inner p(1) show ?thesis by simp
  qed
  have sn: "heap ?s' ! ?n = (if pos = ?n then heap s ! ?p else heap s ! ?n)"
    using nth [of ?n] p by auto
  have ln: "last (heap ?s') = heap ?s' ! ?n" using len ne(2) by (simp add: last_conv_nth)
  have c7b: "last (heap ?s') = heap q ! parent ?n"
  proof (cases "pos = ?n")
    case True
    then have "heap ?s' ! ?n = heap q ! ?p" using sn sp by simp
    with True ln show ?thesis by simp
  next
    case False
    then have "heap ?s' ! ?n = heap s ! ?n" using sn by simp
    with False le inner last_s ln show ?thesis by simp
  qed
  have c7c: "sink (detach ?s' k ?p) ?p = q"
  proof (cases "pos = ?n")
    case True
    from detach_first_swap [OF idx len _ p(2)] k True first
    have "detach ?s' k ?p = q" by simp
    then show ?thesis using sink_id [OF swo ord] by simp
  next
    case False
    with le have lt: "pos < ?n" by simp
    with inner have pn: "pos \<le> parent ?n" and ls: "last (heap s) = heap q ! parent ?n"
      and sk: "sink (detach s k pos) pos = q" by simp_all
    let ?D = "detach s k pos"
    have pos1: "pos < length (heap s) - 1" using lt len by simp
    have D': "detach ?s' k ?p = swap ?D pos ?p"
      using detach_swap [OF idx k pos1 p(1)] .
    have idxD: "index_consistent ?D"
      unfolding detach_def using index_consistent_remove_inner [OF idx k] pos1 by simp
    have lenD: "length (heap ?D) = ?n" using len by (simp add: detach_def)
    have precD: "precedes ?D = precedes q" by (simp add: detach_def pr)
    have Dn: "\<And>m. m < ?n \<Longrightarrow> heap ?D ! m = (if m = pos then last (heap s) else heap s ! m)"
      using detach_nth [OF pos1, of _ k] len by simp
    let ?D' = "swap ?D pos ?p"
    have nthD': "\<And>m. heap ?D' ! m =
        (if m = ?p then heap ?D ! pos else if m = pos then heap ?D ! ?p else heap ?D ! m)"
      using lt p lenD by (simp add: nth_heap_swap)
    have Dpos: "heap ?D' ! pos = heap q ! ?p"
      using nthD' [of pos] Dn [of ?p] p sp by simp
    have Dp: "heap ?D' ! ?p = heap q ! parent ?n"
      using nthD' [of ?p] Dn [of pos] lt ls by simp
    have n0: "0 < ?n" using lt by (cases "heap q") simp_all
    have pn_lt: "parent ?n < ?n" using parent_less [OF n0] .
    have strict: "precedes q (prio (heap q ! ?p)) (prio (heap q ! parent ?n))"
      using no_tiesD [OF nt p(2) pn_lt _ up] p(1) pn by simp
    have win: "winning_child ?D' ?p = pos"
    proof (cases "pos = 2 * ?p + 1")
      case True
      have "\<not> precedes q (prio (heap ?D' ! (2 * ?p + 2))) (prio (heap ?D' ! (2 * ?p + 1)))"
        if r: "2 * ?p + 2 < ?n"
      proof -
        have ne: "2 * ?p + 2 \<noteq> ?p" "2 * ?p + 2 \<noteq> pos" "2 * ?p + 2 = pos + 1"
          using True by auto
        have "heap ?D' ! (2 * ?p + 2) = heap ?D ! (2 * ?p + 2)"
          using nthD' [of "2 * ?p + 2"] ne by (simp only: if_False)
        also have "\<dots> = heap s ! (2 * ?p + 2)"
          using Dn [OF r] ne by (simp only: if_False)
        also have "\<dots> = heap q ! (2 * ?p + 2)"
          using A [OF r] ne(3) pos(1) by blast
        finally have 1: "heap ?D' ! (2 * ?p + 2) = heap q ! (2 * ?p + 2)" .
        from heap_orderD [OF ord r]
        have "\<not> precedes q (prio (heap q ! (2 * ?p + 2))) (prio (heap q ! ?p))" by simp
        with 1 Dpos True show ?thesis by simp
      qed
      with True show ?thesis
        by (auto simp: winning_child_def Let_def lenD precD)
    next
      case False
      with ch have r: "pos = 2 * ?p + 2" by simp
      have l: "2 * ?p + 1 < ?n" "2 * ?p + 1 \<noteq> ?p" "2 * ?p + 1 \<noteq> pos" "2 * ?p + 1 < pos"
        using r lt by auto
      have "heap ?D' ! (2 * ?p + 1) = heap ?D ! (2 * ?p + 1)"
        using nthD' [of "2 * ?p + 1"] l by (simp only: if_False)
      also have "\<dots> = heap s ! (2 * ?p + 1)"
        using Dn [OF l(1)] l by (simp only: if_False)
      also have "\<dots> = heap q ! (2 * ?p + 1)"
        using A [OF l(1)] l(4) by blast
      finally have 1: "heap ?D' ! (2 * ?p + 1) = heap q ! (2 * ?p + 1)" .
      from heap_orderD [OF ord l(1)]
      have "\<not> precedes q (prio (heap q ! (2 * ?p + 1))) (prio (heap q ! ?p))" by simp
      from no_tiesD [OF nt p(2) l(1) _ this] l(2)
      have "precedes q (prio (heap q ! ?p)) (prio (heap q ! (2 * ?p + 1)))" by simp
      with 1 Dpos r lt show ?thesis
        by (auto simp: winning_child_def Let_def lenD precD)
    qed
    have leaf: "2 * ?p + 1 < length (heap ?D')" using ch lt lenD by auto
    have "precedes ?D' (prio (heap ?D' ! winning_child ?D' ?p)) (prio (heap ?D' ! ?p))"
      using strict by (simp only: win Dpos Dp) (simp add: precD)
    from sink_step [OF leaf this]
    have "sink ?D' ?p = sink (swap ?D' ?p pos) pos" by (simp only: win)
    also have "swap ?D' ?p pos = ?D"
      using swap_swap [OF idxD, of pos ?p] lt p(2) lenD by simp
    finally show ?thesis using sk D' by simp
  qed
  have c9: "\<not> precedes q (prio (heap q ! parent ?n)) (prio (heap q ! parent ?p))" if "0 < ?p"
    using swo_le_trans [OF swo heap_orderD [OF ord p(2) that] up] .
  show ?thesis
    unfolding restorable_def
    using c1 c2 c3 c4 c5 c6 c7a c7b c7c c9 p(2) by simp
qed

lemma restorable_delitem:
  assumes swo: "strict_weak_order (precedes q)" and ord: "heap_order q"
    and inv: "restorable q k s pos"
  shows "delitem s k = Inr (None, q)"
proof -
  let ?n = "length (heap q)"
  from inv have len: "length (heap s) = Suc ?n" and le: "pos \<le> ?n"
    and k: "position s k = Some pos"
    and inner: "pos < ?n \<Longrightarrow> sink (detach s k pos) pos = q"
    and first: "pos = ?n \<Longrightarrow>
        s\<lparr>heap := butlast (heap s), position := (position s)(k := None)\<rparr> = q"
    unfolding restorable_def by (simp_all (no_asm_simp))
  show ?thesis
  proof (cases "pos = ?n")
    case True
    with k len first show ?thesis by (simp add: delitem_def Let_def)
  next
    case False
    with le have lt: "pos < ?n" by simp
    have "delitem s k = Inr (None, reheapify (detach s k pos) pos)"
      using k len lt by (simp add: delitem_def Let_def detach_def)
    also have "reheapify (detach s k pos) pos = q"
      using inner [OF lt] swim_id [OF ord] by (simp add: reheapify_def)
    finally show ?thesis .
  qed
qed

lemma delitem_after_swim:
  assumes swo: "strict_weak_order (precedes q)" and ord: "heap_order q" and nt: "no_ties q"
  shows "restorable q k s pos \<Longrightarrow> delitem (swim s pos) k = Inr (None, q)"
proof (induction s pos rule: swim_induct)
  case (stop s pos)
  then show ?case using restorable_delitem [OF swo ord] by (simp add: swim_stop)
next
  case (stay s pos)
  then show ?case using restorable_delitem [OF swo ord] by (simp add: swim_stay)
next
  case (step s pos)
  from restorable_step [OF swo ord nt step(5) step(1,2,3)]
  have "restorable q k (swap s pos (parent pos)) (parent pos)" .
  from step(4) [OF this] show ?case by (simp add: swim_step [OF step(1,2,3)])
qed

lemma restorable_append:
  assumes swo: "strict_weak_order (precedes q)" and idx: "index_consistent q"
    and new: "position q k = None" and kx: "key x = k"
  shows "restorable q k
     (q\<lparr>heap := heap q @ [x], position := (position q)(k \<mapsto> length (heap q))\<rparr>)
     (length (heap q))"
proof -
  have "(position q)(k := None) = position q" using new by (auto simp: fun_eq_iff)
  then show ?thesis
    unfolding restorable_def
    using index_consistent_append [OF idx new kx] swo_irrefl [OF swo]
    by (simp add: nth_append)
qed

section \<open>The invariants at every operation boundary\<close>

lemma heap_order_run:
  assumes "strict_weak_order (precedes q)" "heap_order q" "index_consistent q"
  shows "heap_order (run q op)"
proof (cases op)
  case (SetItem k v)
  with heap_order_setitem [OF assms(1,2), of k v] show ?thesis
    by (simp split: sum.splits prod.splits)
next
  case (AddItem k v)
  with heap_order_setitem [OF assms(1,2), of k v] assms(2) show ?thesis
    by (simp add: additem_def split: sum.splits prod.splits)
next
  case (UpdateItem k v)
  with heap_order_setitem [OF assms(1,2), of k v] assms(2) show ?thesis
    by (simp add: updateitem_def split: sum.splits prod.splits)
next
  case (DelItem k)
  with heap_order_delitem [OF assms(1,2), of k] show ?thesis
    by (simp split: sum.splits prod.splits)
next
  case (PushPopItem k v)
  with heap_order_pushpopitem [OF assms, of k v] show ?thesis
    by (simp split: sum.splits prod.splits)
next
  case (ReplaceKey k k')
  with heap_order_replace_key [OF assms(2), of k k'] show ?thesis
    by (simp split: sum.splits prod.splits)
qed


lemma index_consistent_run:
  assumes "index_consistent q"
  shows "index_consistent (run q op)"
proof (cases op)
  case (SetItem k v)
  with index_consistent_setitem [OF assms, of k v] show ?thesis
    by (simp split: sum.splits prod.splits)
next
  case (AddItem k v)
  with index_consistent_setitem [OF assms, of k v] assms show ?thesis
    by (simp add: additem_def split: sum.splits prod.splits)
next
  case (UpdateItem k v)
  with index_consistent_setitem [OF assms, of k v] assms show ?thesis
    by (simp add: updateitem_def split: sum.splits prod.splits)
next
  case (DelItem k)
  with index_consistent_delitem [OF assms, of k] show ?thesis
    by (simp split: sum.splits prod.splits)
next
  case (PushPopItem k v)
  with index_consistent_pushpopitem [OF assms, of k v] show ?thesis
    by (simp split: sum.splits prod.splits)
next
  case (ReplaceKey k k')
  with index_consistent_replace_key [OF assms, of k k'] show ?thesis
    by (simp split: sum.splits prod.splits)
qed


lemma prio_ok_subset:
  assumes "prio_ok q" "keyfn q' = keyfn q"
    "set (heap q') \<subseteq> insert x (set (heap q))" "prio x = keyfn q (value x)"
  shows "prio_ok q'"
  using assms unfolding prio_ok_def by auto

lemma prio_ok_same_nodes:
  assumes "prio_ok q" "keyfn q' = keyfn q" "mset (heap q') = mset (heap q)"
  shows "prio_ok q'"
proof -
  from assms(3) have "set (heap q') = set (heap q)" by (metis set_mset_mset)
  with assms(1,2) show ?thesis by (simp add: prio_ok_def)
qed

lemma prio_ok_swim: "prio_ok q \<Longrightarrow> prio_ok (swim q pos)"
  using swim_frame [of q pos] by (auto intro: prio_ok_same_nodes)

lemma prio_ok_sink: "prio_ok q \<Longrightarrow> prio_ok (sink q pos)"
  using sink_frame [of q pos] by (auto intro: prio_ok_same_nodes)

lemma prio_ok_reheapify: "prio_ok q \<Longrightarrow> prio_ok (reheapify q pos)"
  by (simp add: reheapify_def prio_ok_swim prio_ok_sink)

lemma prio_ok_setitem:
  assumes pk: "prio_ok q"
  shows "case setitem q k v of Inl (e, q') \<Rightarrow> prio_ok q' | Inr q' \<Rightarrow> prio_ok q'"
proof (cases "position q k")
  case None
  let ?x = "\<lparr>key = k, value = v, prio = keyfn q v\<rparr>"
  have "prio_ok (q\<lparr>heap := heap q @ [?x], position := (position q)(k \<mapsto> length (heap q))\<rparr>)"
    by (rule prio_ok_subset [OF pk, of _ ?x]) auto
  with None show ?thesis by (simp add: setitem_def Let_def prio_ok_swim)
next
  case (Some pos)
  let ?x = "(heap q ! pos)\<lparr>value := v, prio := keyfn q v\<rparr>"
  have "set ((heap q)[pos := ?x]) \<subseteq> insert ?x (set (heap q))"
    by (rule set_update_subset_insert)
  then have "prio_ok (q\<lparr>heap := (heap q)[pos := ?x]\<rparr>)"
    by (intro prio_ok_subset [OF pk, of _ ?x]) simp_all
  with Some pk show ?thesis by (simp add: setitem_def Let_def prio_ok_reheapify)
qed

lemma prio_ok_delitem:
  assumes pk: "prio_ok q"
  shows "case delitem q k of Inl (e, q') \<Rightarrow> prio_ok q' | Inr (r, q') \<Rightarrow> prio_ok q'"
proof (cases "position q k")
  case None
  with pk show ?thesis by (simp add: delitem_def)
next
  case (Some pos)
  show ?thesis
  proof (cases "pos < length (heap q)")
    case False
    have "prio_ok (q\<lparr>position := (position q)(k := None)\<rparr>)"
      using pk by (simp add: prio_ok_def)
    with Some False show ?thesis by (simp add: delitem_def Let_def)
  next
    case True
    then have ne: "heap q \<noteq> []" by auto
    have bl: "set (butlast (heap q)) \<subseteq> set (heap q)" by (auto dest: in_set_butlastD)
    have 1: "prio_ok (q\<lparr>heap := butlast (heap q), position := (position q)(k := None)\<rparr>)"
      using pk bl by (auto simp: prio_ok_def)
    have "set ((butlast (heap q))[pos := last (heap q)]) \<subseteq>
        insert (last (heap q)) (set (butlast (heap q)))"
      by (rule set_update_subset_insert)
    with bl ne have "set ((butlast (heap q))[pos := last (heap q)]) \<subseteq> set (heap q)"
      using last_in_set [OF ne] by auto
    then have 2: "prio_ok (q\<lparr>heap := (butlast (heap q))[pos := last (heap q)],
        position := ((position q)(k := None))(key (last (heap q)) \<mapsto> pos)\<rparr>)"
      using pk by (auto simp: prio_ok_def)
    from Some True 1 2 show ?thesis
      by (simp add: delitem_def Let_def prio_ok_reheapify)
  qed
qed

lemma prio_ok_pushpopitem:
  assumes pk: "prio_ok q"
  shows "case pushpopitem q k v of Inl (e, q') \<Rightarrow> prio_ok q' | Inr (r, q') \<Rightarrow> prio_ok q'"
proof -
  let ?x = "\<lparr>key = k, value = v, prio = keyfn q v\<rparr>"
  have sub: "set ((heap q)[0 := ?x]) \<subseteq> insert ?x (set (heap q))"
    by (rule set_update_subset_insert)
  have 1: "prio_ok (q\<lparr>heap := (heap q)[0 := ?x], position := m\<rparr>)" for m
    using sub by (intro prio_ok_subset [OF pk, of _ ?x]) simp_all
  show ?thesis
    using pk 1 by (auto simp: pushpopitem_def Let_def prio_ok_sink split: option.splits)
qed

lemma prio_ok_replace_key:
  assumes pk: "prio_ok q"
  shows "case replace_key q k k' of Inl (e, q') \<Rightarrow> prio_ok q' | Inr q' \<Rightarrow> prio_ok q'"
proof -
  have 1: "prio_ok (q\<lparr>position := m\<rparr>)" for m
    using pk by (simp add: prio_ok_def)
  have 2: "prio_ok (q\<lparr>position := m, heap := (heap q)[pos := (heap q ! pos)\<lparr>key := k'\<rparr>]\<rparr>)"
    if "pos < length (heap q)" for m pos
  proof -
    have "\<And>i. i < length (heap q) \<Longrightarrow> prio (heap q ! i) = keyfn q (value (heap q ! i))"
      using pk by (simp add: prio_ok_def)
    then show ?thesis
      using that unfolding prio_ok_def by (auto simp: in_set_conv_nth nth_list_update)
  qed
  show ?thesis
    using pk 1 2 by (auto simp: replace_key_def Let_def split: option.splits)
qed

lemma prio_ok_run: "prio_ok q \<Longrightarrow> prio_ok (run q op)"
proof (cases op)
  case (SetItem k v)
  assume "prio_ok q"
  from prio_ok_setitem [OF this, of k v] SetItem show ?thesis
    by (simp split: sum.splits prod.splits)
next
  case (AddItem k v)
  assume pk: "prio_ok q"
  from prio_ok_setitem [OF this, of k v] AddItem pk show ?thesis
    by (simp add: additem_def split: sum.splits prod.splits)
next
  case (UpdateItem k v)
  assume pk: "prio_ok q"
  from prio_ok_setitem [OF this, of k v] UpdateItem pk show ?thesis
    by (simp add: updateitem_def split: sum.splits prod.splits)
next
  case (DelItem k)
  assume "prio_ok q"
  from prio_ok_delitem [OF this, of k] DelItem show ?thesis
    by (simp split: sum.splits prod.splits)
next
  case (PushPopItem k v)
  assume "prio_ok q"
  from prio_ok_pushpopitem [OF this, of k v] PushPopItem show ?thesis
    by (simp split: sum.splits prod.splits)
next
  case (ReplaceKey k k')
  assume "prio_ok q"
  from prio_ok_replace_key [OF this, of k k'] ReplaceKey show ?thesis
    by (simp split: sum.splits prod.splits)
qed

lemma precedes_swim: "precedes (swim q pos) = precedes q"
  using swim_frame [of q pos] by simp

lemma precedes_sink: "precedes (sink q pos) = precedes q"
  using sink_frame [of q pos] by simp

lemma precedes_reheapify: "precedes (reheapify q pos) = precedes q"
  using reheapify_frame [of q pos] by simp

lemma precedes_run: "precedes (run q op) = precedes q"
  by (cases op)
    (auto simp: setitem_def additem_def updateitem_def delitem_def pushpopitem_def
      replace_key_def Let_def precedes_swim precedes_sink precedes_reheapify
      split: option.splits)

lemma invariants_empty:
  "heap_order (empty_pq f prec)" "index_consistent (empty_pq f prec)" "prio_ok (empty_pq f prec)"
  by (simp_all add: heap_order_def index_consistent_def prio_ok_def empty_pq_def)

lemma invariants_reachable:
  assumes "strict_weak_order prec"
  shows "heap_order (foldl run (empty_pq f prec) ops) \<and>
         index_consistent (foldl run (empty_pq f prec) ops) \<and>
         prio_ok (foldl run (empty_pq f prec) ops) \<and>
         precedes (foldl run (empty_pq f prec) ops) = prec"
proof (induction ops rule: rev_induct)
  case Nil
  then show ?case using invariants_empty [of f prec] by (simp add: empty_pq_def)
next
  case (snoc op ops)
  then show ?case
    using assms by (simp add: heap_order_run index_consistent_run prio_ok_run precedes_run)
qed

section \<open>Facts about the example queues\<close>

lemma strict_weak_order_less: "strict_weak_order ((<) :: int \<Rightarrow> int \<Rightarrow> bool)"
  by (auto simp: strict_weak_order_def)

lemma heap_order_ex_abc: "heap_order ex_abc"
  by (simp add: heap_order_def ex_abc_def atLeast0_lessThan_Suc)

lemma index_consistent_ex_abc: "index_consistent ex_abc"
  by (auto simp: index_consistent_def ex_abc_def)

lemma delitem_ex_abc: "delitem ex_abc ''b'' = Inr (None, ex_ac)"
  by (simp add: delitem_def ex_abc_def ex_ac_def reheapify_def sink.simps swim.simps swap_def
      winning_child_def parent_def Let_def)

lemma index_consistent_ex_ac: "index_consistent ex_ac"
  by (auto simp: index_consistent_def ex_ac_def)

lemma prio_ok_ex_abc: "prio_ok ex_abc"
  by (simp add: prio_ok_def ex_abc_def)

lemmas eval_defs = additem_def setitem_def delitem_def topitem_def pushpopitem_def contains_def
  reheapify_def sink.simps swim.simps swap_def winning_child_def parent_def Let_def

lemma pushpopitem_ex_a: "pushpopitem ex_a ''b'' 5 = Inr ((''b'', 5), ex_a)"
  by (simp add: eval_defs ex_a_def)

lemma additem_ex_a: "additem ex_a ''b'' 5 = Inr ex_ab"
  by (simp add: eval_defs ex_a_def ex_ab_def)

lemma topitem_ex_ab: "topitem ex_ab = Inr (''a'', 5)"
  by (simp add: eval_defs ex_ab_def)

lemma delitem_ex_ab: "delitem ex_ab ''a'' = Inr (None, ex_b)"
  by (simp add: eval_defs ex_ab_def ex_b_def)

lemma pushpopitem_ex_rst: "pushpopitem ex_rst ''u'' 4 = Inr ((''r'', 1), ex_tsu)"
  by (simp add: eval_defs ex_rst_def ex_tsu_def) (auto simp: fun_eq_iff)

lemma additem_ex_rst: "additem ex_rst ''u'' 4 = Inr ex_rust"
  by (simp add: eval_defs ex_rst_def ex_rust_def) (auto simp: fun_eq_iff)

lemma topitem_ex_rust: "topitem ex_rust = Inr (''r'', 1)"
  by (simp add: eval_defs ex_rust_def)

lemma delitem_ex_rust: "delitem ex_rust ''r'' = Inr (None, ex_tus)"
  by (simp add: eval_defs ex_rust_def ex_tus_def) (auto simp: fun_eq_iff)

lemma ex_states_differ: "ex_tus \<noteq> ex_tsu" "ex_b \<noteq> ex_a"
  by (simp_all add: ex_tus_def ex_tsu_def ex_a_def ex_b_def)

lemma additem_ex_ties: "additem ex_ties ''d'' 0 = Inr ex_ties_d"
  by (simp add: eval_defs ex_ties_def ex_ties_d_def) (auto simp: fun_eq_iff)

lemma delitem_ex_ties_d: "delitem ex_ties_d ''d'' = Inr (None, ex_ties_back)"
  by (simp add: eval_defs ex_ties_d_def ex_ties_back_def) (auto simp: fun_eq_iff)

lemma facts_ex_ties: "heap_order ex_ties" "index_consistent ex_ties" "\<not> contains ex_ties ''d''"
  "map key (heap ex_ties_back) \<noteq> map key (heap ex_ties)"
  "position ex_ties_back ''a'' \<noteq> position ex_ties ''a''"
  by (auto simp: heap_order_def index_consistent_def contains_def ex_ties_def ex_ties_back_def
      atLeast0_lessThan_Suc)

lemma no_ties_ex_rst: "no_ties ex_rst"
  by (simp add: no_ties_def ex_rst_def less_Suc_eq)

lemma invariants_ex_a: "heap_order ex_a" "index_consistent ex_a"
  by (auto simp: heap_order_def index_consistent_def ex_a_def)

lemma invariants_ex_rst: "heap_order ex_rst" "index_consistent ex_rst" "\<not> contains ex_rst ''u''"
  by (auto simp: heap_order_def index_consistent_def contains_def ex_rst_def
      atLeast0_lessThan_Suc)

lemma swo_ex_rst: "strict_weak_order (precedes ex_rst)"
  using strict_weak_order_less by (simp add: ex_rst_def)

lemma pushpopitem_ex_ac: "pushpopitem ex_ac ''e'' 9 = Inr ((''a'', 5), ex_ec)"
  by (simp add: eval_defs ex_ac_def ex_ec_def)

lemma pushpopitem_ex_rst_5: "pushpopitem ex_rst ''u'' 5 = Inr ((''r'', 1), ex_tsu5)"
  by (simp add: eval_defs ex_rst_def ex_tsu5_def) (auto simp: fun_eq_iff)

lemma additem_ex_rst_5: "additem ex_rst ''u'' 5 = Inr ex_rstu5"
  by (simp add: eval_defs ex_rst_def ex_rstu5_def) (auto simp: fun_eq_iff)

lemma delitem_ex_rstu5: "delitem ex_rstu5 ''r'' = Inr (None, ex_tsu5)"
  by (simp add: eval_defs ex_rstu5_def ex_tsu5_def) (auto simp: fun_eq_iff)

section \<open>The claims\<close>

text \<open>
  C1. For a queue with a consistent index and a key that is not present, \<open>pushpopitem\<close>
  does what the spec says: when the queue is non-empty and the priority of the top entry
  strictly precedes the new priority, the new node is written at array index 0 and entered
  in the index at 0, the old root's key leaves the index, \<open>sink\<close> runs from the root, and
  the old root's key and value are returned; otherwise the queue is returned as it was,
  with the new key and value.
\<close>

theorem pushpopitem_spec:
  assumes "index_consistent q" "\<not> contains q k"
  shows "pushpopitem q k v =
     (if heap q \<noteq> [] \<and> precedes q (prio (heap q ! 0)) (keyfn q v)
      then Inr ((key (heap q ! 0), value (heap q ! 0)),
             sink (q\<lparr>heap := (heap q)[0 := \<lparr>key = k, value = v, prio = keyfn q v\<rparr>],
                     position := ((position q)(k \<mapsto> 0))(key (heap q ! 0) := None)\<rparr>) 0)
      else Inr ((k, v), q))"
proof (cases "heap q \<noteq> [] \<and> precedes q (prio (heap q ! 0)) (keyfn q v)")
  case True
  with pushpopitem_displaces [OF assms, of v] show ?thesis by simp
next
  case False
  from pushpopitem_keeps [OF assms(2) False] have "pushpopitem q k v = Inr ((k, v), q)" .
  with False show ?thesis by auto
qed

theorem pushpopitem_spec_witness:
  "index_consistent ex_ac \<and> \<not> contains ex_ac ''e'' \<and> \<not> contains ex_ac ''d'' \<and>
   pushpopitem ex_ac ''e'' 9 = Inr ((''a'', 5), ex_ec) \<and>
   pushpopitem ex_ac ''d'' 1 = Inr ((''d'', 1), ex_ac)"
proof -
  have e: "\<not> contains ex_ac ''e''" and d: "\<not> contains ex_ac ''d''"
    by (simp_all add: contains_def ex_ac_def)
  have "sink (ex_ac\<lparr>heap := (heap ex_ac)[0 := \<lparr>key = ''e'', value = 9, prio = keyfn ex_ac 9\<rparr>],
            position := ((position ex_ac)(''e'' \<mapsto> 0))(key (heap ex_ac ! 0) := None)\<rparr>) 0 = ex_ec"
    by (simp add: ex_ac_def ex_ec_def sink.simps swap_def winning_child_def Let_def fun_upd_twist)
  with pushpopitem_spec [OF index_consistent_ex_ac e, of 9]
    pushpopitem_spec [OF index_consistent_ex_ac d, of 1]
  have "pushpopitem ex_ac ''e'' 9 = Inr ((''a'', 5), ex_ec)"
    "pushpopitem ex_ac ''d'' 1 = Inr ((''d'', 1), ex_ac)"
    by (simp_all add: ex_ac_def)
  with index_consistent_ex_ac e d show ?thesis by simp
qed

text \<open>
  C2, as stated, fails. With a tie: on the queue a:5, \<open>pushpopitem\<close> of b:5 returns
  (b, 5) and leaves a:5, while \<open>additem\<close> of b:5 followed by reading and removing the top
  returns (a, 5) and leaves b:5. Without a tie: on the queue r:1, s:5, t:3 with u:4 the
  two ways return the same item (r, 1) and leave different arrays, t, s, u and t, u, s.
\<close>

theorem pushpopitem_as_add_then_pop_counterexample:
  "heap_order ex_a \<and> index_consistent ex_a \<and> \<not> contains ex_a ''b'' \<and>
   pushpopitem ex_a ''b'' 5 = Inr ((''b'', 5), ex_a) \<and>
   additem ex_a ''b'' 5 = Inr ex_ab \<and> topitem ex_ab = Inr (''a'', 5) \<and>
   delitem ex_ab ''a'' = Inr (None, ex_b) \<and> (''a'', 5::int) \<noteq> (''b'', 5) \<and> ex_b \<noteq> ex_a \<and>
   heap_order ex_rst \<and> index_consistent ex_rst \<and> \<not> contains ex_rst ''u'' \<and>
   pushpopitem ex_rst ''u'' 4 = Inr ((''r'', 1), ex_tsu) \<and>
   additem ex_rst ''u'' 4 = Inr ex_rust \<and> topitem ex_rust = Inr (''r'', 1) \<and>
   delitem ex_rust ''r'' = Inr (None, ex_tus) \<and> ex_tus \<noteq> ex_tsu"
proof -
  have "\<not> contains ex_a ''b''" by (simp add: contains_def ex_a_def)
  then show ?thesis
    using invariants_ex_a invariants_ex_rst pushpopitem_ex_a additem_ex_a topitem_ex_ab
      delitem_ex_ab pushpopitem_ex_rst additem_ex_rst topitem_ex_rust delitem_ex_rust
      ex_states_differ
    by simp
qed

text \<open>
  C2, amended. When the comparator is a strict weak order, the queue satisfies heap order
  and index consistency, the key is not present and the new priority does not tie with the
  priority of the top entry (ties with other entries are allowed), \<open>pushpopitem\<close> returns
  the same item as \<open>additem\<close> followed by reading the top item and removing it by key,
  and the two resulting queues hold the same nodes (so every lookup agrees), both in heap
  order with a consistent index; their array order may differ.
\<close>

theorem pushpopitem_as_add_then_pop:
  assumes swo: "strict_weak_order (precedes q)" and ord: "heap_order q"
    and idx: "index_consistent q" and new: "\<not> contains q k"
    and nt: "heap q \<noteq> [] \<longrightarrow>
        precedes q (prio (heap q ! 0)) (keyfn q v) \<or>
        precedes q (keyfn q v) (prio (heap q ! 0))"
  shows "\<exists>item q1 q2 q3.
           pushpopitem q k v = Inr (item, q1) \<and>
           additem q k v = Inr q2 \<and> topitem q2 = Inr item \<and>
           delitem q2 (fst item) = Inr (None, q3) \<and>
           mset (heap q3) = mset (heap q1) \<and> (\<forall>k'. getitem q3 k' = getitem q1 k') \<and>
           heap_order q1 \<and> heap_order q3 \<and> index_consistent q1 \<and> index_consistent q3"
proof -
  let ?x = "\<lparr>key = k, value = v, prio = keyfn q v\<rparr>"
  from setitem_new [OF swo ord idx new, of v] obtain q2 where q2:
    "additem q k v = Inr q2" "heap_order q2" "index_consistent q2"
    "precedes q2 = precedes q" "mset (heap q2) = add_mset ?x (mset (heap q))"
    "heap q2 \<noteq> []"
    "(heap q2 ! 0 = ?x \<and> (heap q \<noteq> [] \<longrightarrow> precedes q (keyfn q v) (prio (heap q ! 0)))) \<or>
     (heap q \<noteq> [] \<and> heap q2 ! 0 = heap q ! 0)"
    by blast
  have swo2: "strict_weak_order (precedes q2)" using swo q2(4) by simp
  have z2: "0 < length (heap q2)" using q2(6) by simp
  let ?t = "heap q2 ! 0"
  have top: "topitem q2 = Inr (key ?t, value ?t)" using q2(6) by (rule topitem_nth)
  from index_consistentD1 [OF q2(3) z2] have pos: "position q2 (key ?t) = Some 0" .
  from delitem_present [OF q2(3) pos] obtain q3 where q3:
    "delitem q2 (key ?t) = Inr (None, q3)" "index_consistent q3"
    "add_mset ?t (mset (heap q3)) = mset (heap q2)"
    by blast
  from heap_order_delitem [OF swo2 q2(2), of "key ?t"] q3(1) have ord3: "heap_order q3" by simp
  obtain item q1 where pp: "pushpopitem q k v = Inr (item, q1)"
    using pushpopitem_displaces [OF idx new, of v] pushpopitem_keeps [OF new, of v] by metis
  from heap_order_pushpopitem [OF swo ord idx, of k v] pp have ord1: "heap_order q1" by simp
  from index_consistent_pushpopitem [OF idx, of k v] pp have idx1: "index_consistent q1" by simp
  have "item = (key ?t, value ?t) \<and> mset (heap q3) = mset (heap q1)"
  proof (cases "heap q \<noteq> [] \<and> precedes q (prio (heap q ! 0)) (keyfn q v)")
    case True
    let ?r = "heap q ! 0"
    let ?q0 = "q\<lparr>heap := (heap q)[0 := ?x],
                 position := ((position q)(k \<mapsto> 0))(key ?r := None)\<rparr>"
    from True pp pushpopitem_displaces [OF idx new, of v]
    have item: "item = (key ?r, value ?r)" and q1: "q1 = sink ?q0 0" by simp_all
    from True swo_asym [OF swo] have "\<not> precedes q (keyfn q v) (prio ?r)" by blast
    with q2(7) True have t: "?t = ?r" by blast
    from True have z: "0 < length (heap q)" by simp
    then have mem: "?r \<in># mset (heap q)" by (metis nth_mem_mset)
    have "mset (heap q1) = add_mset ?x (mset (heap q) - {#?r#})"
      using sink_frame [of ?q0 0] z by (simp add: q1 mset_update)
    then have "add_mset ?r (mset (heap q1)) = add_mset ?x (add_mset ?r (mset (heap q) - {#?r#}))"
      by (simp only: add_mset_commute)
    also have "\<dots> = add_mset ?x (mset (heap q))" using mem by (simp only: insert_DiffM)
    finally have "add_mset ?r (mset (heap q1)) = add_mset ?r (mset (heap q3))"
      using q3(3) q2(5) t by simp
    then have "mset (heap q3) = mset (heap q1)" by simp
    with item t show ?thesis by simp
  next
    case False
    then have "pushpopitem q k v = Inr ((k, v), q)"
      by (rule pushpopitem_keeps [OF new])
    with pp have item: "item = (k, v)" and q1: "q1 = q" by simp_all
    have t: "?t = ?x"
    proof (rule ccontr)
      assume nx: "?t \<noteq> ?x"
      with q2(7) have ne: "heap q \<noteq> []" and tr: "?t = heap q ! 0" by blast+
      with nt have "precedes q (prio (heap q ! 0)) (keyfn q v) \<or>
          precedes q (keyfn q v) (prio (heap q ! 0))" by blast
      with False ne have lt: "precedes q (keyfn q v) (prio (heap q ! 0))" by blast
      have "?x \<in> set (heap q2)" using q2(5) by (metis set_mset_mset union_single_eq_member)
      then obtain i where i: "i < length (heap q2)" "heap q2 ! i = ?x"
        by (auto simp: in_set_conv_nth)
      from root_first [OF swo2 q2(2) i(1)] i(2) tr q2(4)
      have "\<not> precedes q (keyfn q v) (prio (heap q ! 0))" by simp
      with lt show False by contradiction
    qed
    from q3(3) q2(5) t have "mset (heap q3) = mset (heap q)" by simp
    with item q1 t show ?thesis by simp
  qed
  then have item: "item = (key ?t, value ?t)" and ms: "mset (heap q3) = mset (heap q1)"
    by simp_all
  have "\<forall>k'. getitem q3 k' = getitem q1 k'"
    using getitem_same_entries [OF idx1 q3(2) ms] by simp
  with pp q2(1) top q3(1) item ms ord1 ord3 idx1 q3(2) show ?thesis
    by (metis fst_conv)
qed

theorem pushpopitem_as_add_then_pop_witness:
  "strict_weak_order (precedes ex_rst) \<and> heap_order ex_rst \<and> index_consistent ex_rst \<and>
   \<not> contains ex_rst ''u'' \<and> heap ex_rst \<noteq> [] \<and> prio (heap ex_rst ! 0) < 4 \<and>
   pushpopitem ex_rst ''u'' 4 = Inr ((''r'', 1), ex_tsu) \<and>
   additem ex_rst ''u'' 4 = Inr ex_rust \<and> topitem ex_rust = Inr (''r'', 1) \<and>
   delitem ex_rust ''r'' = Inr (None, ex_tus) \<and>
   mset (heap ex_tus) = mset (heap ex_tsu) \<and>
   (\<forall>k'. getitem ex_tus k' = getitem ex_tsu k') \<and>
   heap_order ex_tsu \<and> heap_order ex_tus \<and>
   prio (heap ex_rst ! 0) < 5 \<and> prio (heap ex_rst ! 1) = 5 \<and>
   pushpopitem ex_rst ''u'' 5 = Inr ((''r'', 1), ex_tsu5) \<and>
   additem ex_rst ''u'' 5 = Inr ex_rstu5 \<and> topitem ex_rstu5 = Inr (''r'', 1) \<and>
   delitem ex_rstu5 ''r'' = Inr (None, ex_tsu5) \<and> heap_order ex_tsu5"
proof -
  have top: "heap ex_rst \<noteq> []" "prio (heap ex_rst ! 0) < 4" "prio (heap ex_rst ! 0) < 5"
    "prio (heap ex_rst ! 1) = 5"
    by (simp_all add: ex_rst_def)
  have nt4: "heap ex_rst \<noteq> [] \<longrightarrow>
      precedes ex_rst (prio (heap ex_rst ! 0)) (keyfn ex_rst 4) \<or>
      precedes ex_rst (keyfn ex_rst 4) (prio (heap ex_rst ! 0))"
    and nt5: "heap ex_rst \<noteq> [] \<longrightarrow>
      precedes ex_rst (prio (heap ex_rst ! 0)) (keyfn ex_rst 5) \<or>
      precedes ex_rst (keyfn ex_rst 5) (prio (heap ex_rst ! 0))"
    by (simp_all add: ex_rst_def)
  from pushpopitem_as_add_then_pop [OF swo_ex_rst invariants_ex_rst nt4]
  obtain item q1 q2 q3 where *:
    "pushpopitem ex_rst ''u'' 4 = Inr (item, q1)"
    "additem ex_rst ''u'' 4 = Inr q2" "topitem q2 = Inr item"
    "delitem q2 (fst item) = Inr (None, q3)"
    "mset (heap q3) = mset (heap q1)" "\<forall>k'. getitem q3 k' = getitem q1 k'"
    "heap_order q1" "heap_order q3"
    by blast
  from *(1) pushpopitem_ex_rst have 1: "item = (''r'', 1)" "q1 = ex_tsu" by simp_all
  from *(2) additem_ex_rst have 2: "q2 = ex_rust" by simp
  from *(4) 1 2 delitem_ex_rust have 3: "q3 = ex_tus" by simp
  from pushpopitem_as_add_then_pop [OF swo_ex_rst invariants_ex_rst nt5]
  obtain item' p1 p2 p3 where **:
    "pushpopitem ex_rst ''u'' 5 = Inr (item', p1)"
    "additem ex_rst ''u'' 5 = Inr p2" "topitem p2 = Inr item'"
    "delitem p2 (fst item') = Inr (None, p3)" "heap_order p3"
    by blast
  from **(1) pushpopitem_ex_rst_5 have 4: "item' = (''r'', 1)" "p1 = ex_tsu5" by simp_all
  from **(2) additem_ex_rst_5 have 5: "p2 = ex_rstu5" by simp
  from **(4) 4 5 delitem_ex_rstu5 have 6: "p3 = ex_tsu5" by simp
  from * ** show ?thesis
    unfolding 1 2 3 4 5 6 using swo_ex_rst invariants_ex_rst top by simp
qed

text \<open>
  C3. When the comparator is a strict weak order and the queue satisfies heap order and
  index consistency, it satisfies heap order again after every public mutating operation
  (assignment, \<open>additem\<close>, \<open>updateitem\<close>, deletion, \<open>pushpopitem\<close>, \<open>replace_key\<close>),
  whether the operation returns or raises, and so after every sequence of them: no
  existing child strictly precedes its parent.
\<close>

theorem heap_order_kept:
  assumes "strict_weak_order (precedes q)" "heap_order q" "index_consistent q"
  shows "heap_order (run q op) \<and> heap_order (foldl run q ops)"
proof
  from assms show "heap_order (run q op)" by (rule heap_order_run)
next
  have "heap_order (foldl run q ops) \<and> index_consistent (foldl run q ops) \<and>
      precedes (foldl run q ops) = precedes q"
  proof (induction ops rule: rev_induct)
    case Nil
    from assms show ?case by simp
  next
    case (snoc x xs)
    then show ?case
      using assms(1) by (simp add: heap_order_run index_consistent_run precedes_run)
  qed
  then show "heap_order (foldl run q ops)" ..
qed

theorem heap_order_kept_witness:
  "strict_weak_order (precedes ex_abc) \<and> heap_order ex_abc \<and> index_consistent ex_abc \<and>
   run ex_abc (DelItem ''b'') = ex_ac \<and> heap_order ex_ac \<and>
   foldl run ex_abc [DelItem ''b'', PushPopItem ''e'' 9] = ex_ec \<and> heap_order ex_ec"
proof -
  have swo: "strict_weak_order (precedes ex_abc)"
    using strict_weak_order_less by (simp add: ex_abc_def)
  have run: "run ex_abc (DelItem ''b'') = ex_ac"
    by (simp add: delitem_ex_abc)
  have runs: "foldl run ex_abc [DelItem ''b'', PushPopItem ''e'' 9] = ex_ec"
    by (simp add: delitem_ex_abc pushpopitem_ex_ac)
  from heap_order_kept [OF swo heap_order_ex_abc index_consistent_ex_abc,
      of "DelItem ''b''" "[DelItem ''b'', PushPopItem ''e'' 9]"]
  have "heap_order ex_ac \<and> heap_order ex_ec" by (simp only: run runs)
  with swo heap_order_ex_abc index_consistent_ex_abc run runs show ?thesis by simp
qed

text \<open>
  C4. When the index is consistent with the array (every key of the index points at a slot
  holding that key, the index has exactly the keys of the array, no key twice), it is
  consistent again after every public mutating operation, whether the operation returns
  or raises, and so after every sequence of them.
\<close>

theorem index_consistent_kept:
  assumes "index_consistent q"
  shows "index_consistent (run q op) \<and> index_consistent (foldl run q ops)"
proof
  from assms show "index_consistent (run q op)" by (rule index_consistent_run)
next
  show "index_consistent (foldl run q ops)"
  proof (induction ops rule: rev_induct)
    case Nil
    from assms show ?case by simp
  next
    case (snoc x xs)
    then show ?case by (simp add: index_consistent_run)
  qed
qed

theorem index_consistent_kept_witness:
  "index_consistent ex_abc \<and> run ex_abc (DelItem ''b'') = ex_ac \<and> index_consistent ex_ac \<and>
   dom (position ex_ac) = {''a'', ''c''} \<and>
   foldl run ex_abc [DelItem ''b'', PushPopItem ''e'' 9] = ex_ec \<and> index_consistent ex_ec \<and>
   dom (position ex_ec) = {''c'', ''e''}"
proof -
  have run: "run ex_abc (DelItem ''b'') = ex_ac"
    by (simp add: delitem_ex_abc)
  have runs: "foldl run ex_abc [DelItem ''b'', PushPopItem ''e'' 9] = ex_ec"
    by (simp add: delitem_ex_abc pushpopitem_ex_ac)
  from index_consistent_kept [OF index_consistent_ex_abc,
      of "DelItem ''b''" "[DelItem ''b'', PushPopItem ''e'' 9]"]
  have "index_consistent ex_ac \<and> index_consistent ex_ec" by (simp only: run runs)
  moreover have "dom (position ex_ac) = {''a'', ''c''}" "dom (position ex_ec) = {''c'', ''e''}"
    by (auto simp: ex_ac_def ex_ec_def)
  ultimately show ?thesis using index_consistent_ex_abc run runs by simp
qed

text \<open>
  C5. When the comparator is a strict weak order and the queue satisfies heap order and
  index consistency, with every stored priority the priority key of its value, the loop
  "read the top item, then remove it by key" runs until the queue is empty without an
  exception and yields the items of the queue (each exactly once) in the order of the
  comparator: no later item's priority precedes an earlier one's.
\<close>

theorem drain_sorted:
  assumes "strict_weak_order (precedes q)" "heap_order q" "index_consistent q" "prio_ok q"
  shows "\<exists>items. drain q = Inr items \<and>
           sorted_wrt (\<lambda>x y. \<not> precedes q (keyfn q (snd y)) (keyfn q (snd x))) items \<and>
           mset items = mset (map (\<lambda>n. (key n, value n)) (heap q))"
  using assms
proof (induction "length (heap q)" arbitrary: q rule: less_induct)
  case less
  note swo = less.prems(1) and ord = less.prems(2) and idx = less.prems(3) and pk = less.prems(4)
  show ?case
  proof (cases "heap q")
    case Nil
    then show ?thesis by (subst drain.simps) (simp add: len_def)
  next
    case (Cons top rest)
    then have z: "0 < length (heap q)" and top: "heap q ! 0 = top" by simp_all
    from index_consistentD1 [OF idx z] top have pos: "position q (key top) = Some 0" by simp
    from delitem_present [OF idx pos] top obtain q' where q':
      "delitem q (key top) = Inr (None, q')" "index_consistent q'"
      "add_mset top (mset (heap q')) = mset (heap q)"
      "precedes q' = precedes q" "keyfn q' = keyfn q"
      by auto
    from heap_order_delitem [OF swo ord, of "key top"] q'(1) have ord': "heap_order q'" by simp
    from q'(3) have sub: "set (heap q) = insert top (set (heap q'))"
      by (metis set_mset_add_mset_insert set_mset_mset)
    with pk q'(5) have pk': "prio_ok q'" by (simp add: prio_ok_def)
    from delitem_length [OF q'(1)] have "length (heap q') < length (heap q)" .
    from less.hyps [OF this] swo ord' q'(2) pk' q'(4,5)
    obtain items where items: "drain q' = Inr items"
      "sorted_wrt (\<lambda>x y. \<not> precedes q (keyfn q (snd y)) (keyfn q (snd x))) items"
      "mset items = mset (map (\<lambda>n. (key n, value n)) (heap q'))"
      by auto
    have dr: "drain q = Inr ((key top, value top) # items)"
      using Cons q'(1) items(1) by (subst drain.simps) (simp add: len_def topitem_def)
    have first: "\<not> precedes q (keyfn q (snd y)) (keyfn q (value top))" if "y \<in> set items" for y
    proof -
      from that items(3) have "y \<in> set (map (\<lambda>n. (key n, value n)) (heap q'))"
        by (metis set_mset_mset)
      then obtain n where n: "n \<in> set (heap q')" "y = (key n, value n)" by auto
      with sub have "n \<in> set (heap q)" by simp
      then obtain i where i: "i < length (heap q)" "heap q ! i = n"
        by (auto simp: in_set_conv_nth)
      from root_first [OF swo ord i(1)] i(2) top
      have "\<not> precedes q (prio n) (prio top)" by simp
      moreover from pk \<open>n \<in> set (heap q)\<close> sub
      have "prio n = keyfn q (value n)" "prio top = keyfn q (value top)"
        unfolding prio_ok_def by blast+
      ultimately show ?thesis using n(2) by simp
    qed
    have "mset ((key top, value top) # items) = mset (map (\<lambda>n. (key n, value n)) (heap q))"
    proof -
      have "mset (map (\<lambda>n. (key n, value n)) (heap q)) =
          image_mset (\<lambda>n. (key n, value n)) (add_mset top (mset (heap q')))"
        by (simp only: q'(3) mset_map)
      then show ?thesis using items(3) by simp
    qed
    with dr items(2) first show ?thesis by auto
  qed
qed

theorem drain_sorted_witness:
  "strict_weak_order (precedes ex_abc) \<and> heap_order ex_abc \<and> index_consistent ex_abc \<and>
   prio_ok ex_abc \<and> drain ex_abc = Inr [(''b'', 2), (''a'', 5), (''c'', 8)] \<and>
   (\<exists>items. drain ex_abc = Inr items \<and>
      sorted_wrt (\<lambda>x y. \<not> snd y < snd x) items \<and>
      mset items = {#(''b'', 2), (''a'', 5), (''c'', 8)#})"
proof -
  have swo: "strict_weak_order (precedes ex_abc)"
    using strict_weak_order_less by (simp add: ex_abc_def)
  have d: "drain ex_abc = Inr [(''b'', 2), (''a'', 5), (''c'', 8)]"
    by (simp add: drain.simps len_def topitem_def delitem_def reheapify_def sink.simps swim.simps
        swap_def winning_child_def parent_def Let_def ex_abc_def)
  from drain_sorted [OF swo heap_order_ex_abc index_consistent_ex_abc prio_ok_ex_abc]
  have "\<exists>items. drain ex_abc = Inr items \<and>
      sorted_wrt (\<lambda>x y. \<not> snd y < snd x) items \<and>
      mset items = {#(''b'', 2), (''a'', 5), (''c'', 8)#}"
    by (simp add: ex_abc_def)
  with swo heap_order_ex_abc index_consistent_ex_abc prio_ok_ex_abc d show ?thesis by simp
qed

text \<open>
  C6, as stated, fails: on the queue b:2, a:5, c:8, where the lookup of b gives 2, the
  deletion of b returns \<open>None\<close> and not the pair (b, 2).
\<close>

theorem delitem_returns_pair_counterexample:
  "getitem ex_abc ''b'' = Inr 2 \<and> delitem ex_abc ''b'' = Inr (None, ex_ac) \<and>
   delitem ex_abc ''b'' \<noteq> Inr (Some (''b'', 2), ex_ac)"
  by (simp add: delitem_ex_abc) (simp add: getitem_def ex_abc_def)

text \<open>
  C6, amended. For a queue with a consistent index in which the lookup of \<open>k\<close> gives
  \<open>v\<close>, the deletion of \<open>k\<close> succeeds, returns \<open>None\<close>, and removes the entry: \<open>k\<close> is
  absent afterwards, the length drops by one and every other key is looked up as before.
\<close>

theorem delitem_removes:
  assumes idx: "index_consistent q" and k: "getitem q k = Inr v"
  shows "\<exists>q'. delitem q k = Inr (None, q') \<and> \<not> contains q' k \<and> len q' + 1 = len q \<and>
           (\<forall>k'. k' \<noteq> k \<longrightarrow> getitem q' k' = getitem q k')"
proof -
  from k obtain pos where pos: "position q k = Some pos"
    by (auto simp: getitem_def split: option.splits)
  from index_consistentD2 [OF idx pos] have kp: "pos < length (heap q)" "key (heap q ! pos) = k"
    by auto
  from delitem_present [OF idx pos] obtain q' where q': "delitem q k = Inr (None, q')"
    "index_consistent q'" "add_mset (heap q ! pos) (mset (heap q')) = mset (heap q)"
    by blast
  from q'(3) have set: "set (heap q) = insert (heap q ! pos) (set (heap q'))"
    by (metis set_mset_add_mset_insert set_mset_mset)
  from q'(3) have "size (mset (heap q)) = Suc (size (mset (heap q')))"
    by (metis size_add_mset)
  then have len: "len q' + 1 = len q" by (simp add: len_def)
  have mk: "mset (map key (heap q)) = add_mset k (mset (map key (heap q')))"
    using q'(3) kp by (metis image_mset_add_mset mset_map)
  have "distinct (map key (heap q))"
    using idx by (simp add: index_consistent_def)
  then have "count (mset (map key (heap q))) k \<le> 1"
    unfolding distinct_count_atmost_1 by (metis le_refl zero_le_one)
  with mk have "count (mset (map key (heap q'))) k = 0" by simp
  then have absent: "k \<notin> key ` set (heap q')"
    by (metis count_eq_zero_iff list.set_map set_mset_mset)
  then have "k \<notin> dom (position q')" using q'(2) by (simp add: index_consistent_def)
  then have nc: "\<not> contains q' k" by (auto simp: contains_def)
  have "getitem q' k' = getitem q k'" if "k' \<noteq> k" for k'
    by (rule getitem_cong [OF idx q'(2)]) (use that kp set in auto)
  with q'(1) nc len show ?thesis by blast
qed

theorem delitem_removes_witness:
  "index_consistent ex_abc \<and> getitem ex_abc ''b'' = Inr 2 \<and>
   (\<exists>q'. delitem ex_abc ''b'' = Inr (None, q') \<and> \<not> contains q' ''b'' \<and>
      len q' + 1 = len ex_abc \<and> getitem q' ''a'' = getitem ex_abc ''a'')"
proof -
  have g: "getitem ex_abc ''b'' = Inr 2" by (simp add: getitem_def ex_abc_def)
  from delitem_removes [OF index_consistent_ex_abc g] index_consistent_ex_abc g
  show ?thesis by auto
qed




text \<open>
  C8. For a queue with a consistent index that holds \<open>old_key\<close> at position \<open>pos\<close> and
  does not hold \<open>new_key\<close>, \<open>replace_key\<close> moves the index entry from \<open>old_key\<close> to
  \<open>new_key\<close> and renames the key field of the node at \<open>pos\<close>, and nothing else: the value
  and the priority stored under \<open>old_key\<close> are found under \<open>new_key\<close>, \<open>old_key\<close> is
  absent, and the array keeps its order, every value and every priority.
\<close>

theorem replace_key_frame:
  assumes idx: "index_consistent q" and old: "position q old_key = Some pos"
    and new: "\<not> contains q new_key"
  shows "\<exists>q'. replace_key q old_key new_key = Inr q' \<and>
           position q' = ((position q)(old_key := None))(new_key \<mapsto> pos) \<and>
           heap q' = (heap q)[pos := (heap q ! pos)\<lparr>key := new_key\<rparr>] \<and>
           getitem q' new_key = getitem q old_key \<and>
           prio (heap q' ! pos) = prio (heap q ! pos) \<and>
           \<not> contains q' old_key \<and>
           map value (heap q') = map value (heap q) \<and>
           map prio (heap q') = map prio (heap q) \<and>
           map key (heap q') = (map key (heap q))[pos := new_key] \<and>
           keyfn q' = keyfn q \<and> precedes q' = precedes q"
proof -
  from index_consistentD2 [OF idx old] have pos: "pos < length (heap q)" by simp
  from old new have ne: "old_key \<noteq> new_key" by (auto simp: contains_def)
  let ?q' = "q\<lparr>position := ((position q)(old_key := None))(new_key \<mapsto> pos),
               heap := (heap q)[pos := (heap q ! pos)\<lparr>key := new_key\<rparr>]\<rparr>"
  have 1: "replace_key q old_key new_key = Inr ?q'"
    using old new pos by (simp add: replace_key_def Let_def)
  have 2: "getitem ?q' new_key = getitem q old_key"
    using old pos by (simp add: getitem_def)
  have 3: "\<not> contains ?q' old_key" using ne by (simp add: contains_def)
  have 4: "map key (heap ?q') = (map key (heap q))[pos := new_key]"
    by (simp add: map_update)
  from 1 2 3 4 pos show ?thesis
    by (simp add: map_value_rekey map_prio_rekey)
qed

theorem replace_key_frame_witness:
  "index_consistent ex_ac \<and> position ex_ac ''c'' = Some 1 \<and> \<not> contains ex_ac ''z'' \<and>
   (\<exists>q'. replace_key ex_ac ''c'' ''z'' = Inr q' \<and> getitem q' ''z'' = Inr 8 \<and>
      getitem q' ''c'' = Inl (KeyError_missing ''c'') \<and>
      map prio (heap q') = [5, 8] \<and> map key (heap q') = [''a'', ''z''])"
proof -
  have c: "position ex_ac ''c'' = Some 1" and z: "\<not> contains ex_ac ''z''"
    by (simp_all add: ex_ac_def contains_def)
  from replace_key_frame [OF index_consistent_ex_ac c z]
  obtain q' where q': "replace_key ex_ac ''c'' ''z'' = Inr q'"
    "position q' = ((position ex_ac)(''c'' := None))(''z'' \<mapsto> 1)"
    "getitem q' ''z'' = getitem ex_ac ''c''" "\<not> contains q' ''c''"
    "map prio (heap q') = map prio (heap ex_ac)"
    "map key (heap q') = (map key (heap ex_ac))[1 := ''z'']"
    by blast
  from q'(4) have "getitem q' ''c'' = Inl (KeyError_missing ''c'')"
    by (simp add: getitem_def contains_def)
  moreover have "getitem ex_ac ''c'' = Inr 8" by (simp add: getitem_def ex_ac_def)
  moreover have "map prio (heap ex_ac) = [5, 8]" "(map key (heap ex_ac))[1 := ''z''] = [''a'', ''z'']"
    by (simp_all add: ex_ac_def)
  ultimately show ?thesis
    using index_consistent_ex_ac c z q' by auto
qed

text \<open>
  C9. \<open>additem\<close> raises the "already in the queue" \<open>KeyError\<close> when the key is
  present, and then the queue is exactly as before; when the key is absent it returns.
\<close>

theorem additem_raises_iff_present:
  "(contains q k \<longrightarrow> additem q k v = Inl (KeyError_already k, q)) \<and>
   (\<not> contains q k \<longrightarrow> (\<exists>q'. additem q k v = Inr q'))"
  by (auto simp: additem_def contains_def setitem_def Let_def)

theorem additem_raises_iff_present_witness:
  "additem (empty_pq (\<lambda>v. v) (<)) ''x'' (1::int) = Inr ex_x \<and> contains ex_x ''x'' \<and>
   additem ex_x ''x'' 2 = Inl (KeyError_already ''x'', ex_x) \<and>
   getitem ex_x ''x'' = Inr 1 \<and> len ex_x = 1"
proof -
  have 1: "additem (empty_pq (\<lambda>v. v) (<)) ''x'' (1::int) = Inr ex_x"
    by (simp add: additem_def setitem_def empty_pq_def ex_x_def swim.simps)
  have 2: "contains ex_x ''x''" by (simp add: contains_def ex_x_def)
  with additem_raises_iff_present [of ex_x "''x''" 2]
  have 3: "additem ex_x ''x'' 2 = Inl (KeyError_already ''x'', ex_x)" by simp
  have 4: "getitem ex_x ''x'' = Inr 1" "len ex_x = 1"
    by (simp_all add: getitem_def len_def ex_x_def)
  from 1 2 3 4 show ?thesis by simp
qed

text \<open>
  C10. \<open>replace_key\<close> tests the new key before it looks the old key up: renaming a
  present key to itself raises the "already in the queue" \<open>KeyError\<close> and leaves the queue
  as it was, and so does a rename from an absent key to a present one.
\<close>

theorem replace_key_checks_new_key_first:
  "(contains q k \<longrightarrow> replace_key q k k = Inl (KeyError_already k, q)) \<and>
   (\<not> contains q k \<and> contains q k' \<longrightarrow> replace_key q k k' = Inl (KeyError_already k', q))"
  by (simp add: replace_key_def)

theorem replace_key_checks_new_key_first_witness:
  "contains ex_ac ''a'' \<and> replace_key ex_ac ''a'' ''a'' = Inl (KeyError_already ''a'', ex_ac) \<and>
   \<not> contains ex_ac ''q'' \<and> contains ex_ac ''c'' \<and>
   replace_key ex_ac ''q'' ''c'' = Inl (KeyError_already ''c'', ex_ac)"
proof -
  have 1: "contains ex_ac ''a''" "\<not> contains ex_ac ''q''" "contains ex_ac ''c''"
    by (simp_all add: contains_def ex_ac_def)
  with replace_key_checks_new_key_first [of ex_ac "''a''" "''c''"]
    replace_key_checks_new_key_first [of ex_ac "''q''" "''c''"]
  show ?thesis by simp
qed

end
